theory Spec2Isabelle
  imports Main "HOL-Library.Word"
begin

unbundle bit_operations_syntax

section \<open>Version words (TransactionTid)\<close>

text \<open>
  The radix tree of \<^verbatim>\<open>RadixTree.hh\<close> keeps one version word in every interior node and
  in every leaf. The word is a \<^verbatim>\<open>TransactionTid::type\<close>; the header that declares it
  (\<^verbatim>\<open>Transaction.hh\<close>) is not among the sources, so the constants and the helper functions
  on version words below follow the specification. Everything in \<^verbatim>\<open>RadixTree.hh\<close> itself
  is translated from the code.
\<close>

type_synonym version_t = "64 word"
type_synonym key_t = "64 word"
type_synonym uint8_t = "8 word"
type_synonym addr = nat

text \<open>Modelled from the spec: \<^verbatim>\<open>TransactionTid::lock_bit\<close> (Transaction.hh is missing);
  section 3: "lock bit (bit 0): exclusive mutation latch".\<close>
definition lock_bit :: version_t where
  "lock_bit = 1"

text \<open>Modelled from the spec: \<^verbatim>\<open>TransactionTid::valid_bit\<close> (Transaction.hh is missing);
  section 3 lists it as a single bit between the lock bit and the increment field.\<close>
definition valid_bit :: version_t where
  "valid_bit = 2"

text \<open>Modelled from the spec: \<^verbatim>\<open>TransactionTid::user_bit1\<close> (Transaction.hh is missing);
  section 3: the insert bit is "mapped to STM user_bit1", a single bit below the
  increment field.\<close>
definition user_bit1 :: version_t where
  "user_bit1 = 4"

text \<open>Modelled from the spec: \<^verbatim>\<open>TransactionTid::increment_value\<close> (Transaction.hh is
  missing); section 3: "increment field: the remaining high bits, bumped by a fixed
  increment on every successful update".\<close>
definition increment_value :: version_t where
  "increment_value = 8"

text \<open>The lock bit of a version word is set.\<close>
definition is_locked :: "version_t \<Rightarrow> bool" where
  "is_locked v = (v AND lock_bit \<noteq> 0)"

text \<open>Modelled from the spec: \<^verbatim>\<open>TransactionTid::lock\<close> (Transaction.hh is missing);
  section 5: both lock classes are "spin-locks on the low bit of the respective version".
  The model is sequential: while one operation runs nobody else touches the word, so a
  spin on a word whose lock bit is set never ends, which is the value \<open>None\<close>.\<close>
partial_function (option) tid_lock :: "version_t \<Rightarrow> version_t option" where
  "tid_lock v = (if is_locked v then tid_lock v else Some (v OR lock_bit))"

text \<open>Modelled from the spec: \<^verbatim>\<open>TransactionTid::unlock\<close> (Transaction.hh is missing);
  it releases the version-lock, that is, clears the low bit.\<close>
definition tid_unlock :: "version_t \<Rightarrow> version_t" where
  "tid_unlock v = v AND NOT lock_bit"

text \<open>Modelled from the spec: \<^verbatim>\<open>TransactionTid::set_version\<close> (Transaction.hh is missing);
  section 4.5: "publish new_version". Both callers pass a new version computed from the
  locked word, so the lock bit is carried by the new value itself.\<close>
definition set_version :: "version_t \<Rightarrow> version_t \<Rightarrow> version_t" where
  "set_version v new_v = new_v"

text \<open>Modelled from the spec: \<^verbatim>\<open>TransactionTid::same_version\<close> (Transaction.hh is
  missing); section 6: "same_version(a, b) (equality ignoring lock bit)".\<close>
definition same_version :: "version_t \<Rightarrow> version_t \<Rightarrow> bool" where
  "same_version v1 v2 = (v1 AND NOT lock_bit = v2 AND NOT lock_bit)"

section \<open>Key transformer\<close>

text \<open>\<^verbatim>\<open>DefaultKeyTransformer<uint64_t>\<close>: \<^verbatim>\<open>sizeof(uint64_t)\<close> is 8.\<close>

definition buf_size :: nat where
  "buf_size = 8 * 2"

text \<open>One iteration of the loop of \<^verbatim>\<open>transform\<close>:
  \<^verbatim>\<open>buf[2*sizeof(key)-i-1] = (key >> (4*i)) & 0xf\<close>, the 64-bit value narrowed to
  \<^verbatim>\<open>uint8_t\<close>.\<close>
definition transform_step :: "key_t \<Rightarrow> uint8_t list \<Rightarrow> nat \<Rightarrow> uint8_t list" where
  "transform_step key buf i = buf[2 * 8 - i - 1 := ucast (drop_bit (4 * i) key AND 0xf)]"

definition transform :: "key_t \<Rightarrow> uint8_t list \<Rightarrow> uint8_t list" where
  "transform key buf = foldl (transform_step key) buf [0..<8 * 2]"

text \<open>The callers declare \<^verbatim>\<open>uint8_t t_key[t_key_sz]\<close> and let \<^verbatim>\<open>transform\<close> fill it. The
  initial content of the array does not matter, since every cell is overwritten
  (lemma \<open>transform_eq\<close> below).\<close>
definition t_key_of :: "key_t \<Rightarrow> uint8_t list" where
  "t_key_of key = transform key (replicate buf_size 0)"

text \<open>The 4-bit group number \<open>i\<close> of a key, counted from the least significant end, and
  the number a sequence of nibbles denotes when read most significant first. Both are
  used to state and prove the properties of \<open>transform\<close>.\<close>
definition nibble :: "key_t \<Rightarrow> nat \<Rightarrow> uint8_t" where
  "nibble key i = ucast (drop_bit (4 * i) key AND 0xf)"

fun digits_val :: "uint8_t list \<Rightarrow> nat" where
  "digits_val [] = 0"
| "digits_val (d # ds) = unat d * 16 ^ length ds + digits_val ds"

section \<open>Outcomes\<close>

text \<open>
  An operation of the tree either returns (\<open>Ok\<close>), aborts the running transaction
  (\<open>Abort\<close>, the call of \<^verbatim>\<open>Sto::abort()\<close>), has undefined behaviour in C++ because it
  follows a pointer to the wrong kind of object, a null pointer or an index outside
  \<^verbatim>\<open>children\<close> (\<open>Fault\<close>), or never returns because it spins on a lock that nobody
  releases (\<open>Spin\<close>).
\<close>

datatype 'a result = Ok 'a | Abort | Fault | Spin

definition rbind :: "'a result \<Rightarrow> ('a \<Rightarrow> 'b result) \<Rightarrow> 'b result" where
  "rbind r f = (case r of Ok x \<Rightarrow> f x | Abort \<Rightarrow> Abort | Fault \<Rightarrow> Fault | Spin \<Rightarrow> Spin)"

text \<open>A loop that may run forever yields an option; \<open>None\<close> is the outcome \<open>Spin\<close>.\<close>
definition run :: "'a result option \<Rightarrow> 'a result" where
  "run r = (case r of None \<Rightarrow> Spin | Some x \<Rightarrow> x)"

section \<open>Nodes, leaves and the heap\<close>

definition span :: nat where
  "span = 4"

definition fanout :: nat where
  "fanout = 2 ^ span"

text \<open>\<^verbatim>\<open>struct tree_node\<close>. A child pointer is \<open>None\<close> for \<^verbatim>\<open>nullptr\<close>.\<close>
record tree_node =
  children :: "addr option list"
  parent_index :: uint8_t
  parent :: "addr option"
  version :: version_t
  node_value :: "addr option"

text \<open>The constructor \<^verbatim>\<open>tree_node(tree_node *parent, uint8_t parent_index)\<close>.\<close>
definition new_tree_node :: "addr option \<Rightarrow> uint8_t \<Rightarrow> tree_node" where
  "new_tree_node p i =
     \<lparr>children = replicate fanout None, parent_index = i, parent = p,
      version = increment_value, node_value = None\<rparr>"

text \<open>Modelled from the spec: \<^verbatim>\<open>versioned_value_struct<V>\<close> (versioned_value.hh is
  missing); section 3: a leaf is a payload cell \<open>value\<close> and a version word.\<close>
record 'v versioned_value =
  vv_version :: version_t
  vv_value :: 'v

text \<open>What the code needs from the payload type \<^verbatim>\<open>V\<close>: the value of a default-constructed
  payload (\<^verbatim>\<open>new versioned_value()\<close>), and what \<^verbatim>\<open>write_value<V>()\<close> yields on an item
  whose write slot holds the \<^verbatim>\<open>bool\<close> staged by \<^verbatim>\<open>trans_remove\<close>. Both depend on \<^verbatim>\<open>V\<close>
  and on the packing of items, so they are parameters.\<close>
record 'v value_type =
  V_init :: 'v
  V_of_bool :: "bool \<Rightarrow> 'v"

text \<open>\<^verbatim>\<open>ver_insert_bit = TransactionTid::user_bit1\<close>.\<close>
definition ver_insert_bit :: version_t where
  "ver_insert_bit = user_bit1"

text \<open>The children are \<^verbatim>\<open>void *\<close>: the object behind an address is a node or a leaf, and
  a \<^verbatim>\<open>static_cast\<close> to the other kind is a \<open>Fault\<close>.\<close>
datatype 'v obj = TreeNode tree_node | VValue "'v versioned_value"

text \<open>The tree object: the heap of nodes and leaves reachable from it and the next
  address \<^verbatim>\<open>new\<close> hands out. The member \<^verbatim>\<open>root\<close> lives at \<open>root_addr\<close>.\<close>
record 'v radix_tree =
  store :: "addr \<Rightarrow> 'v obj option"
  next_addr :: addr

definition root_addr :: addr where
  "root_addr = 0"

text \<open>The constructor \<^verbatim>\<open>RadixTree() : transformer(), root()\<close>.\<close>
definition RadixTree :: "'v radix_tree" where
  "RadixTree = \<lparr>store = Map.empty(root_addr \<mapsto> TreeNode (new_tree_node None 0)), next_addr = 1\<rparr>"

text \<open>\<^verbatim>\<open>new\<close>: a fresh address holding the new object (allocation does not fail).\<close>
definition alloc :: "'v radix_tree \<Rightarrow> 'v obj \<Rightarrow> addr \<times> 'v radix_tree" where
  "alloc s ob = (next_addr s, s\<lparr>store := (store s)(next_addr s \<mapsto> ob), next_addr := Suc (next_addr s)\<rparr>)"

section \<open>Transaction items (TransItem, Sto::item)\<close>

text \<open>Modelled from the spec: \<^verbatim>\<open>TransItem::user0_bit\<close> and the flags word of an item
  (Transaction.hh is missing); section 6: "Per-item user flag bits (at least three)".
  In the code \<^verbatim>\<open>item_put_bit\<close>, \<^verbatim>\<open>item_remove_bit\<close> and \<^verbatim>\<open>item_empty_bit\<close> are
  \<^verbatim>\<open>user0_bit\<close> shifted by 0, 1 and 2: three different bits. The flags word is the set
  of the bits that are set, \<^verbatim>\<open>flags & bit\<close> is membership.\<close>
datatype item_flag = item_put_bit | item_remove_bit | item_empty_bit

text \<open>Modelled from the spec: the write slot of \<^verbatim>\<open>TransItem\<close> (Transaction.hh is
  missing); section 6 lists \<^verbatim>\<open>add_write(v)\<close> and \<^verbatim>\<open>write_value<T>()\<close>. The slot holds what
  \<^verbatim>\<open>add_write\<close> was given: a payload (\<^verbatim>\<open>trans_put\<close>) or the \<^verbatim>\<open>bool\<close> of
  \<^verbatim>\<open>trans_remove\<close>.\<close>
datatype 'v packed = Packed_value 'v | Packed_bool bool

text \<open>Modelled from the spec: \<^verbatim>\<open>TransItem\<close> (Transaction.hh is missing); glossary: "the
  transaction manager's per-(owner,key) record of reads, writes, and flags". The owner is
  always this tree.\<close>
record 'v trans_item =
  item_key :: addr
  item_flags :: "item_flag set"
  rdata :: "version_t option"
  wdata :: "'v packed option"

type_synonym 'v transaction = "addr \<Rightarrow> 'v trans_item option"

text \<open>Modelled from the spec: \<^verbatim>\<open>Sto::item\<close> (Transaction.hh is missing); section 6:
  "per-transaction handle keyed by (owner, key); a second call in the same transaction
  returns the same handle". The first call makes an item without read, write or flags.
  The key of the handle is the key it was asked for.\<close>
definition Sto_item :: "'v transaction \<Rightarrow> addr \<Rightarrow> 'v trans_item" where
  "Sto_item txn k =
     (case txn k of Some it \<Rightarrow> it\<lparr>item_key := k\<rparr>
      | None \<Rightarrow> \<lparr>item_key = k, item_flags = {}, rdata = None, wdata = None\<rparr>)"

text \<open>Modelled from the spec: \<^verbatim>\<open>has_read\<close> (Transaction.hh is missing).\<close>
definition has_read :: "'v trans_item \<Rightarrow> bool" where
  "has_read it = (rdata it \<noteq> None)"

text \<open>Modelled from the spec: \<^verbatim>\<open>has_write\<close> (Transaction.hh is missing).\<close>
definition has_write :: "'v trans_item \<Rightarrow> bool" where
  "has_write it = (wdata it \<noteq> None)"

text \<open>Modelled from the spec: \<^verbatim>\<open>add_read\<close> (Transaction.hh is missing); section 4.5:
  "record the version into the item's read set".\<close>
definition add_read :: "'v trans_item \<Rightarrow> version_t \<Rightarrow> 'v trans_item" where
  "add_read it v = it\<lparr>rdata := Some v\<rparr>"

text \<open>Modelled from the spec: \<^verbatim>\<open>add_write\<close> (Transaction.hh is missing); section 4.5:
  "stage the value as the item's write".\<close>
definition add_write :: "'v trans_item \<Rightarrow> 'v packed \<Rightarrow> 'v trans_item" where
  "add_write it w = it\<lparr>wdata := Some w\<rparr>"

text \<open>Modelled from the spec: \<^verbatim>\<open>add_flags\<close> (Transaction.hh is missing); it sets the bits
  of the mask in the item's flags.\<close>
definition add_flags :: "'v trans_item \<Rightarrow> item_flag set \<Rightarrow> 'v trans_item" where
  "add_flags it m = it\<lparr>item_flags := item_flags it \<union> m\<rparr>"

text \<open>Modelled from the spec: \<^verbatim>\<open>write_value<V>()\<close> (Transaction.hh is missing), on a
  filled write slot: the payload, or the reading of the staged \<^verbatim>\<open>bool\<close> as a \<^verbatim>\<open>V\<close>.\<close>
definition write_value :: "'v value_type \<Rightarrow> 'v packed \<Rightarrow> 'v" where
  "write_value V w = (case w of Packed_value v \<Rightarrow> v | Packed_bool b \<Rightarrow> V_of_bool V b)"

section \<open>Descent\<close>

text \<open>The loop of \<^verbatim>\<open>get_value\<close>, on the nibbles still to follow: \<open>(False, node)\<close> at the
  first empty slot, \<open>(True, leaf)\<close> after the last nibble.\<close>
fun get_value_loop :: "'v radix_tree \<Rightarrow> addr \<Rightarrow> uint8_t list \<Rightarrow> (bool \<times> addr) result" where
  "get_value_loop s cur [] = Ok (True, cur)"
| "get_value_loop s cur (t # ts) =
     (case store s cur of
        Some (TreeNode node) \<Rightarrow>
          if unat t < length (children node) then
            (case children node ! unat t of
               None \<Rightarrow> Ok (False, cur)
             | Some c \<Rightarrow> get_value_loop s c ts)
          else Fault
      | _ \<Rightarrow> Fault)"

definition get_value :: "'v radix_tree \<Rightarrow> key_t \<Rightarrow> (bool \<times> addr) result" where
  "get_value s key = get_value_loop s root_addr (t_key_of key)"

text \<open>\<^verbatim>\<open>atomic_read\<close>: the version, the value, the version again, and once more from the
  start when the two versions differ.\<close>
partial_function (option) atomic_read ::
    "'v radix_tree \<Rightarrow> addr \<Rightarrow> ('v \<times> version_t) result option" where
  "atomic_read s vv =
     (case store s vv of
        Some (VValue l) \<Rightarrow>
          (let ver2 = vv_version l; val = vv_value l; ver = vv_version l
           in if ver = ver2 then Some (Ok (val, ver)) else atomic_read s vv)
      | _ \<Rightarrow> Some Fault)"

section \<open>Insertion of the missing nodes\<close>

text \<open>The body of \<^verbatim>\<open>if (node->children[t_key[i]] == nullptr)\<close> in \<^verbatim>\<open>insert_nodes\<close> from
  \<^verbatim>\<open>TransactionTid::lock(node->version)\<close> on: lock the node, look at the slot again, bump
  the version and publish the new child, or delete it when the slot has been filled, and
  unlock.\<close>
definition publish :: "'v radix_tree \<Rightarrow> addr \<Rightarrow> uint8_t \<Rightarrow> addr \<Rightarrow> 'v radix_tree result" where
  "publish s cur t new_node =
     (case store s cur of
        Some (TreeNode node) \<Rightarrow>
          (case tid_lock (version node) of
             None \<Rightarrow> Spin
           | Some locked \<Rightarrow>
               let node1 = node\<lparr>version := locked\<rparr>;
                   (node2, st) =
                     (if children node1 ! unat t = None
                      then (node1\<lparr>version := set_version (version node1) (version node1 + increment_value),
                                  children := (children node1)[unat t := Some new_node]\<rparr>,
                            store s)
                      else (node1, (store s)(new_node := None)));
                   node3 = node2\<lparr>version := tid_unlock (version node2)\<rparr>
               in Ok (s\<lparr>store := st(cur \<mapsto> TreeNode node3)\<rparr>))
      | _ \<Rightarrow> Fault)"

text \<open>One iteration of the loop of \<^verbatim>\<open>insert_nodes\<close> up to the last line: when the slot
  is empty, build the child (a leaf with only the insert bit when \<open>is_last\<close>, that is
  \<^verbatim>\<open>i == t_key_sz - 1\<close>, an interior node otherwise) and publish it.\<close>
definition insert_step ::
    "'v value_type \<Rightarrow> 'v radix_tree \<Rightarrow> addr \<Rightarrow> uint8_t \<Rightarrow> bool \<Rightarrow> 'v radix_tree result" where
  "insert_step V s cur t is_last =
     (case store s cur of
        Some (TreeNode node) \<Rightarrow>
          if unat t < length (children node) then
            (if children node ! unat t = None then
               (let (new_node, s1) =
                      (if is_last
                       then alloc s (VValue \<lparr>vv_version = ver_insert_bit, vv_value = V_init V\<rparr>)
                       else alloc s (TreeNode (new_tree_node (Some cur) t)))
                in publish s1 cur t new_node)
             else Ok s)
          else Fault
      | _ \<Rightarrow> Fault)"

text \<open>The last line of an iteration, \<^verbatim>\<open>cur = node->children[t_key[i]]\<close>. The pointer is
  followed right after, so a null pointer here is a \<open>Fault\<close>.\<close>
definition child_of :: "'v radix_tree \<Rightarrow> addr \<Rightarrow> uint8_t \<Rightarrow> addr result" where
  "child_of s cur t =
     (case store s cur of
        Some (TreeNode node) \<Rightarrow>
          if unat t < length (children node) then
            (case children node ! unat t of None \<Rightarrow> Fault | Some c \<Rightarrow> Ok c)
          else Fault
      | _ \<Rightarrow> Fault)"

text \<open>The loop of \<^verbatim>\<open>insert_nodes\<close>, on the nibbles still to follow. The last iteration
  (\<^verbatim>\<open>i == t_key_sz - 1\<close>) is the one with no nibble left after it.\<close>
fun insert_nodes_loop ::
    "'v value_type \<Rightarrow> 'v radix_tree \<Rightarrow> addr \<Rightarrow> uint8_t list \<Rightarrow> ('v radix_tree \<times> addr) result" where
  "insert_nodes_loop V s cur [] = Ok (s, cur)"
| "insert_nodes_loop V s cur (t # ts) =
     rbind (insert_step V s cur t (ts = [])) (\<lambda>s1.
     rbind (child_of s1 cur t) (\<lambda>c.
     insert_nodes_loop V s1 c ts))"

definition insert_nodes :: "'v value_type \<Rightarrow> 'v radix_tree \<Rightarrow> key_t \<Rightarrow> ('v radix_tree \<times> addr) result" where
  "insert_nodes V s key = insert_nodes_loop V s root_addr (t_key_of key)"

section \<open>Non-transactional operations\<close>

text \<open>\<^verbatim>\<open>get(key, value)\<close>: the result and the content of the reference \<^verbatim>\<open>value\<close>
  afterwards.\<close>
definition get :: "'v radix_tree \<Rightarrow> key_t \<Rightarrow> 'v \<Rightarrow> (bool \<times> 'v) result" where
  "get s key val =
     rbind (get_value s key) (\<lambda>(is_vv, vv_or_node).
       if \<not> is_vv then Ok (False, val)
       else
         (case store s vv_or_node of
            Some (VValue l) \<Rightarrow>
              if vv_version l AND valid_bit = 0 then Ok (False, val)
              else rbind (run (atomic_read s vv_or_node)) (\<lambda>(v, ver). Ok (True, v))
          | _ \<Rightarrow> Fault))"

text \<open>The locked section of \<^verbatim>\<open>put\<close> on the leaf \<open>vv\<close>.\<close>
definition put_leaf :: "'v radix_tree \<Rightarrow> addr \<Rightarrow> 'v \<Rightarrow> 'v radix_tree result" where
  "put_leaf s vv val =
     (case store s vv of
        Some (VValue l) \<Rightarrow>
          (case tid_lock (vv_version l) of
             None \<Rightarrow> Spin
           | Some locked \<Rightarrow>
               let ver = locked + increment_value;
                   ver = ver OR valid_bit;
                   ver = ver AND NOT ver_insert_bit;
                   l1 = l\<lparr>vv_version := ver\<rparr>;
                   l2 = l1\<lparr>vv_value := val\<rparr>;
                   l3 = l2\<lparr>vv_version := tid_unlock (vv_version l2)\<rparr>
               in Ok (s\<lparr>store := (store s)(vv \<mapsto> VValue l3)\<rparr>))
      | _ \<Rightarrow> Fault)"

definition put :: "'v value_type \<Rightarrow> 'v radix_tree \<Rightarrow> key_t \<Rightarrow> 'v \<Rightarrow> 'v radix_tree result" where
  "put V s key val = rbind (insert_nodes V s key) (\<lambda>(s1, vv). put_leaf s1 vv val)"

text \<open>The locked section of \<^verbatim>\<open>remove\<close> on the leaf \<open>vv\<close>.\<close>
definition remove_leaf :: "'v radix_tree \<Rightarrow> addr \<Rightarrow> 'v radix_tree result" where
  "remove_leaf s vv =
     (case store s vv of
        Some (VValue l) \<Rightarrow>
          (case tid_lock (vv_version l) of
             None \<Rightarrow> Spin
           | Some locked \<Rightarrow>
               let ver = locked + increment_value;
                   ver = ver AND NOT (valid_bit OR ver_insert_bit);
                   l1 = l\<lparr>vv_version := ver\<rparr>;
                   l2 = l1\<lparr>vv_version := tid_unlock (vv_version l1)\<rparr>
               in Ok (s\<lparr>store := (store s)(vv \<mapsto> VValue l2)\<rparr>))
      | _ \<Rightarrow> Fault)"

definition remove :: "'v radix_tree \<Rightarrow> key_t \<Rightarrow> 'v radix_tree result" where
  "remove s key =
     rbind (get_value s key) (\<lambda>(is_vv, vv_or_node).
       if \<not> is_vv then Ok s else remove_leaf s vv_or_node)"

section \<open>Transactional operations\<close>

text \<open>The branch of \<^verbatim>\<open>trans_get\<close> and of \<^verbatim>\<open>trans_remove\<close> for a key that is not found:
  the version of the node with the empty slot becomes the read of an item on that node,
  flagged \<^verbatim>\<open>item_empty_bit\<close>.\<close>
definition read_absent :: "'v radix_tree \<Rightarrow> 'v transaction \<Rightarrow> addr \<Rightarrow> 'v transaction result" where
  "read_absent s txn node =
     (case store s node of
        Some (TreeNode n) \<Rightarrow>
          (let item = Sto_item txn node;
               item = add_read item (version n);
               item = add_flags item {item_empty_bit}
           in Ok (txn(node \<mapsto> item)))
      | _ \<Rightarrow> Fault)"

text \<open>\<^verbatim>\<open>trans_get(key, value)\<close>: the transaction afterwards, the result and the content of
  the reference \<^verbatim>\<open>value\<close>. The tests \<^verbatim>\<open>has_write()\<close> and \<^verbatim>\<open>has_read()\<close> and the
  values \<^verbatim>\<open>write_value\<close> and \<^verbatim>\<open>read_value\<close> are the cases on the two slots of the
  item.

  The call holds no lock and reads the shared tree at three places: the descent of
  \<^verbatim>\<open>get_value\<close>; then \<^verbatim>\<open>node->version\<close> for a key that is not found, or
  \<^verbatim>\<open>vv->version()\<close> for a leaf; then \<^verbatim>\<open>atomic_read\<close>, which reads the version of the
  leaf again into \<^verbatim>\<open>ver\<close>. Other threads may run in between, so the three reads get a
  heap each: \<open>s0\<close> for the descent, \<open>s1\<close> for the version, \<open>s2\<close> for the atomic read.\<close>
definition trans_get_at ::
    "'v value_type \<Rightarrow> 'v radix_tree \<Rightarrow> 'v radix_tree \<Rightarrow> 'v radix_tree \<Rightarrow> 'v transaction \<Rightarrow> key_t \<Rightarrow> 'v
      \<Rightarrow> ('v transaction \<times> bool \<times> 'v) result" where
  "trans_get_at V s0 s1 s2 txn key val =
     rbind (get_value s0 key) (\<lambda>(is_vv, vv_or_node).
       if \<not> is_vv then
         rbind (read_absent s1 txn vv_or_node) (\<lambda>txn1. Ok (txn1, False, val))
       else
         (let item = Sto_item txn vv_or_node;
              txn1 = txn(vv_or_node \<mapsto> item)
          in case wdata item of
               Some w \<Rightarrow> Ok (txn1, True, write_value V w)
             | None \<Rightarrow>
                 (case store s1 vv_or_node of
                    Some (VValue l) \<Rightarrow>
                      (let ver = vv_version l
                       in if (case rdata item of Some r \<Rightarrow> \<not> same_version r ver | None \<Rightarrow> False)
                          then Abort
                          else
                            rbind (run (atomic_read s2 vv_or_node)) (\<lambda>(v, ver).
                              Ok (txn(vv_or_node \<mapsto> add_read item ver), ver AND valid_bit \<noteq> 0, v)))
                  | _ \<Rightarrow> Fault)))"

text \<open>\<^verbatim>\<open>trans_get(key, value)\<close> while no other thread writes to the tree: the three reads
  see one heap.\<close>
definition trans_get ::
    "'v value_type \<Rightarrow> 'v radix_tree \<Rightarrow> 'v transaction \<Rightarrow> key_t \<Rightarrow> 'v
      \<Rightarrow> ('v transaction \<times> bool \<times> 'v) result" where
  "trans_get V s txn key val = trans_get_at V s s s txn key val"

definition trans_put ::
    "'v value_type \<Rightarrow> 'v radix_tree \<Rightarrow> 'v transaction \<Rightarrow> key_t \<Rightarrow> 'v
      \<Rightarrow> ('v radix_tree \<times> 'v transaction) result" where
  "trans_put V s txn key val =
     rbind (insert_nodes V s key) (\<lambda>(s1, vv).
       let item = Sto_item txn vv;
           item = add_write item (Packed_value val);
           item = add_flags item {item_put_bit}
       in Ok (s1, txn(vv \<mapsto> item)))"

text \<open>\<^verbatim>\<open>trans_remove(key)\<close>. For a key that is not found it reads the shared tree at two
  places, the descent of \<^verbatim>\<open>get_value\<close> and then \<^verbatim>\<open>node->version\<close>: the heaps \<open>s0\<close> and
  \<open>s1\<close>. For a leaf it reads nothing after the descent.\<close>
definition trans_remove_at ::
    "'v radix_tree \<Rightarrow> 'v radix_tree \<Rightarrow> 'v transaction \<Rightarrow> key_t \<Rightarrow> 'v transaction result" where
  "trans_remove_at s0 s1 txn key =
     rbind (get_value s0 key) (\<lambda>(is_vv, vv_or_node).
       if \<not> is_vv then read_absent s1 txn vv_or_node
       else
         (let item = Sto_item txn vv_or_node;
              item = add_write item (Packed_bool True);
              item = add_flags item {item_remove_bit}
          in Ok (txn(vv_or_node \<mapsto> item))))"

text \<open>\<^verbatim>\<open>trans_remove(key)\<close> while no other thread writes to the tree.\<close>
definition trans_remove :: "'v radix_tree \<Rightarrow> 'v transaction \<Rightarrow> key_t \<Rightarrow> 'v transaction result" where
  "trans_remove s txn key = trans_remove_at s s txn key"

section \<open>Commit callbacks\<close>

definition lock :: "'v radix_tree \<Rightarrow> 'v trans_item \<Rightarrow> 'v radix_tree result" where
  "lock s item =
     (case store s (item_key item) of
        Some (VValue l) \<Rightarrow>
          (case tid_lock (vv_version l) of
             None \<Rightarrow> Spin
           | Some locked \<Rightarrow> Ok (s\<lparr>store := (store s)(item_key item \<mapsto> VValue (l\<lparr>vv_version := locked\<rparr>))\<rparr>))
      | _ \<Rightarrow> Fault)"

text \<open>\<^verbatim>\<open>check\<close>. \<^verbatim>\<open>read_value\<close> on an item without a read has nothing to return: a
  \<open>Fault\<close>.\<close>
definition check :: "'v radix_tree \<Rightarrow> 'v trans_item \<Rightarrow> bool result" where
  "check s item =
     (if item_empty_bit \<in> item_flags item then
        (case store s (item_key item) of
           Some (TreeNode node) \<Rightarrow>
             (case rdata item of Some r \<Rightarrow> Ok (same_version (version node) r) | None \<Rightarrow> Fault)
         | _ \<Rightarrow> Fault)
      else
        (case store s (item_key item) of
           Some (VValue l) \<Rightarrow>
             (case rdata item of Some r \<Rightarrow> Ok (same_version (vv_version l) r) | None \<Rightarrow> Fault)
         | _ \<Rightarrow> Fault))"

text \<open>\<^verbatim>\<open>install\<close>. \<^verbatim>\<open>write_value\<close> on an item without a write is a \<open>Fault\<close>.\<close>
definition install :: "'v value_type \<Rightarrow> 'v radix_tree \<Rightarrow> 'v trans_item \<Rightarrow> 'v radix_tree result" where
  "install V s item =
     (case store s (item_key item) of
        Some (VValue l) \<Rightarrow>
          (let new_ver = vv_version l + increment_value;
               flags = item_flags item
           in if item_put_bit \<in> flags then
                (case wdata item of
                   Some w \<Rightarrow>
                     (let new_ver = new_ver OR valid_bit;
                          new_ver = new_ver AND NOT ver_insert_bit;
                          l1 = l\<lparr>vv_value := write_value V w\<rparr>;
                          l2 = l1\<lparr>vv_version := set_version (vv_version l1) new_ver\<rparr>
                      in Ok (s\<lparr>store := (store s)(item_key item \<mapsto> VValue l2)\<rparr>))
                 | None \<Rightarrow> Fault)
              else if item_remove_bit \<in> flags then
                (let new_ver = new_ver AND NOT valid_bit;
                     new_ver = new_ver AND NOT ver_insert_bit;
                     l2 = l\<lparr>vv_version := set_version (vv_version l) new_ver\<rparr>
                 in Ok (s\<lparr>store := (store s)(item_key item \<mapsto> VValue l2)\<rparr>))
              else
                (let l2 = l\<lparr>vv_version := set_version (vv_version l) new_ver\<rparr>
                 in Ok (s\<lparr>store := (store s)(item_key item \<mapsto> VValue l2)\<rparr>)))
      | _ \<Rightarrow> Fault)"

definition unlock :: "'v radix_tree \<Rightarrow> 'v trans_item \<Rightarrow> 'v radix_tree result" where
  "unlock s item =
     (case store s (item_key item) of
        Some (VValue l) \<Rightarrow>
          Ok (s\<lparr>store := (store s)(item_key item \<mapsto> VValue (l\<lparr>vv_version := tid_unlock (vv_version l)\<rparr>))\<rparr>)
      | _ \<Rightarrow> Fault)"

section \<open>Invariants of the heap\<close>

text \<open>
  The predicates of this section are not in the code; they state what the code keeps
  true. A heap is well formed when every object lies below \<open>next_addr\<close>, every node has
  \<open>fanout\<close> slots and a level below \<open>buf_size\<close>, the root has level 0, and a child of a
  node of level \<open>d\<close> is a leaf when \<open>d + 1 = buf_size\<close> and a node of level \<open>d + 1\<close>
  otherwise. It is quiescent when no version word has its lock bit set, as between two
  operations when no other thread is active.
\<close>

definition typed :: "(addr \<Rightarrow> nat) \<Rightarrow> 'v radix_tree \<Rightarrow> nat \<Rightarrow> addr \<Rightarrow> bool" where
  "typed lv s d p =
     (if d = buf_size then (\<exists>l. store s p = Some (VValue l))
      else (\<exists>n. store s p = Some (TreeNode n)) \<and> lv p = d)"

definition wf_levels :: "(addr \<Rightarrow> nat) \<Rightarrow> 'v radix_tree \<Rightarrow> bool" where
  "wf_levels lv s \<longleftrightarrow>
     typed lv s 0 root_addr \<and>
     (\<forall>p. store s p \<noteq> None \<longrightarrow> p < next_addr s) \<and>
     (\<forall>p node. store s p = Some (TreeNode node) \<longrightarrow>
        lv p < buf_size \<and> length (children node) = fanout \<and>
        (\<forall>i c. i < fanout \<longrightarrow> children node ! i = Some c \<longrightarrow> typed lv s (Suc (lv p)) c))"

definition well_formed :: "'v radix_tree \<Rightarrow> bool" where
  "well_formed s \<longleftrightarrow> (\<exists>lv. wf_levels lv s)"

definition quiescent :: "'v radix_tree \<Rightarrow> bool" where
  "quiescent s \<longleftrightarrow>
     (\<forall>p n. store s p = Some (TreeNode n) \<longrightarrow> \<not> is_locked (version n)) \<and>
     (\<forall>p l. store s p = Some (VValue l) \<longrightarrow> \<not> is_locked (vv_version l))"

text \<open>The object \<^verbatim>\<open>insert_nodes\<close> builds for an empty slot, and the heap after it has
  published that object in slot \<open>t\<close> of the node \<open>cur\<close> (whose content was \<open>nd\<close>).\<close>

definition new_obj :: "'v value_type \<Rightarrow> addr \<Rightarrow> uint8_t \<Rightarrow> bool \<Rightarrow> 'v obj" where
  "new_obj V cur t is_last =
     (if is_last then VValue \<lparr>vv_version = ver_insert_bit, vv_value = V_init V\<rparr>
      else TreeNode (new_tree_node (Some cur) t))"

definition grown ::
    "'v value_type \<Rightarrow> 'v radix_tree \<Rightarrow> addr \<Rightarrow> tree_node \<Rightarrow> uint8_t \<Rightarrow> bool \<Rightarrow> 'v radix_tree" where
  "grown V s cur nd t is_last =
     s\<lparr>next_addr := Suc (next_addr s),
       store := (store s)(next_addr s \<mapsto> new_obj V cur t is_last,
                cur \<mapsto> TreeNode (nd\<lparr>children := (children nd)[unat t := Some (next_addr s)],
                                     version := version nd + increment_value\<rparr>))\<rparr>"

text \<open>\<open>heap_le s s'\<close>: from \<open>s\<close> to \<open>s'\<close> the leaves are unchanged, every node is still a
  node, and every slot that was filled still holds the same child.\<close>

definition heap_le :: "'v radix_tree \<Rightarrow> 'v radix_tree \<Rightarrow> bool" where
  "heap_le s s' \<longleftrightarrow>
     (\<forall>p l. store s p = Some (VValue l) \<longrightarrow> store s' p = Some (VValue l)) \<and>
     (\<forall>p n. store s p = Some (TreeNode n) \<longrightarrow>
        (\<exists>n'. store s' p = Some (TreeNode n') \<and> length (children n') = length (children n) \<and>
           (\<forall>i c. i < length (children n) \<longrightarrow> children n ! i = Some c \<longrightarrow>
                  children n' ! i = Some c)))"

text \<open>\<open>only_bumped V s s' n p\<close>: of the objects of \<open>s\<close>, only the node \<open>n\<close> differs in
  \<open>s'\<close>, where its version is one increment higher; \<open>p\<close> is a new leaf in its initial
  state.\<close>

definition only_bumped ::
    "'v value_type \<Rightarrow> 'v radix_tree \<Rightarrow> 'v radix_tree \<Rightarrow> addr \<Rightarrow> addr \<Rightarrow> bool" where
  "only_bumped V s s' n p \<longleftrightarrow>
     (\<forall>q. q < next_addr s \<longrightarrow> q \<noteq> n \<longrightarrow> store s' q = store s q) \<and>
     (\<exists>nd nd'. store s n = Some (TreeNode nd) \<and> store s' n = Some (TreeNode nd') \<and>
        version nd' = version nd + increment_value) \<and>
     next_addr s \<le> p \<and>
     store s' p = Some (VValue \<lparr>vv_version = ver_insert_bit, vv_value = V_init V\<rparr>)"

section \<open>Results of the updates on a version word\<close>

text \<open>The tests \<^verbatim>\<open>ver & TransactionTid::valid_bit\<close> and \<^verbatim>\<open>ver & ver_insert_bit\<close>.\<close>

definition is_valid :: "version_t \<Rightarrow> bool" where
  "is_valid v = (v AND valid_bit \<noteq> 0)"

definition is_inserting :: "version_t \<Rightarrow> bool" where
  "is_inserting v = (v AND ver_insert_bit \<noteq> 0)"

text \<open>The version word \<^verbatim>\<open>put\<close> and \<^verbatim>\<open>remove\<close> leave in a leaf whose word was \<open>v\<close>, once
  the lock is released again (lemmas \<open>put_leaf_eq\<close> and \<open>remove_leaf_eq\<close>).\<close>

definition put_version :: "version_t \<Rightarrow> version_t" where
  "put_version v = ((v + increment_value) OR valid_bit) AND NOT ver_insert_bit"

definition remove_version :: "version_t \<Rightarrow> version_t" where
  "remove_version v = (v + increment_value) AND NOT (valid_bit OR ver_insert_bit)"

section \<open>Commit of a single write\<close>

text \<open>Modelled from the spec: the commit of the transaction manager (Transaction.hh is
  missing) for a transaction whose only item is a write without a read; section 4.5:
  the manager invokes \<^verbatim>\<open>lock\<close>, then \<^verbatim>\<open>check\<close> for the reads (there are none), then
  \<^verbatim>\<open>install\<close>, then \<^verbatim>\<open>unlock\<close>.\<close>
definition commit_write_item :: "'v value_type \<Rightarrow> 'v radix_tree \<Rightarrow> 'v trans_item \<Rightarrow> 'v radix_tree result" where
  "commit_write_item V s item =
     rbind (lock s item) (\<lambda>s1. rbind (install V s1 item) (\<lambda>s2. unlock s2 item))"

section \<open>A payload type for the examples\<close>

text \<open>\<^verbatim>\<open>V = unsigned\<close>: a default-constructed payload is 0, and the \<^verbatim>\<open>bool\<close> staged
  by \<^verbatim>\<open>trans_remove\<close> reads as 0 or 1.\<close>
definition V_nat :: "nat value_type" where
  "V_nat = \<lparr>V_init = 0, V_of_bool = of_bool\<rparr>"

section \<open>Reachable heaps and the states of a leaf\<close>

text \<open>The heaps that the operations of the tree make from the empty tree, taken in any
  order and with any arguments: the node insertion of \<^verbatim>\<open>trans_put\<close> and \<^verbatim>\<open>put\<close>, the
  non-transactional \<^verbatim>\<open>put\<close> and \<^verbatim>\<open>remove\<close>, and the commit callbacks that write
  (\<^verbatim>\<open>lock\<close>, \<^verbatim>\<open>install\<close>, \<^verbatim>\<open>unlock\<close>) on any item.\<close>

inductive reachable :: "'v value_type \<Rightarrow> 'v radix_tree \<Rightarrow> bool" for V :: "'v value_type" where
  reach_init: "reachable V RadixTree"
| reach_insert_nodes: "reachable V s \<Longrightarrow> insert_nodes V s key = Ok (s', p) \<Longrightarrow> reachable V s'"
| reach_put: "reachable V s \<Longrightarrow> put V s key val = Ok s' \<Longrightarrow> reachable V s'"
| reach_remove: "reachable V s \<Longrightarrow> remove s key = Ok s' \<Longrightarrow> reachable V s'"
| reach_lock: "reachable V s \<Longrightarrow> lock s item = Ok s' \<Longrightarrow> reachable V s'"
| reach_install: "reachable V s \<Longrightarrow> install V s item = Ok s' \<Longrightarrow> reachable V s'"
| reach_unlock: "reachable V s \<Longrightarrow> unlock s item = Ok s' \<Longrightarrow> reachable V s'"

text \<open>A version word does not have the insert bit and the valid bit at once.\<close>

definition leaf_bits_ok :: "version_t \<Rightarrow> bool" where
  "leaf_bits_ok v \<longleftrightarrow> \<not> (is_inserting v \<and> is_valid v)"

definition leaves_ok :: "'v radix_tree \<Rightarrow> bool" where
  "leaves_ok s \<longleftrightarrow> (\<forall>p l. store s p = Some (VValue l) \<longrightarrow> leaf_bits_ok (vv_version l))"

section \<open>The key transformer preserves the order\<close>

lemma unat_nibble: "unat (nibble key i) = unat key div 16 ^ i mod 16"
proof -
  have m: "(0xf :: key_t) = mask 4" by (simp add: mask_eq_exp_minus_1)
  have "drop_bit (4 * i) key AND 0xf = take_bit 4 (drop_bit (4 * i) key)"
    unfolding m by (rule take_bit_eq_mask[symmetric])
  then have "unat (drop_bit (4 * i) key AND 0xf) = take_bit 4 (drop_bit (4 * i) (unat key))"
    by (simp only: unsigned_take_bit_eq unat_drop_bit_eq)
  then have "unat (drop_bit (4 * i) key AND 0xf) = unat key div 2 ^ (4 * i) mod 16"
    by (simp add: take_bit_eq_mod drop_bit_eq_div)
  moreover have "(2::nat) ^ (4 * i) = 16 ^ i" by (simp add: power_mult)
  ultimately have "unat (drop_bit (4 * i) key AND 0xf) = unat key div 16 ^ i mod 16" by simp
  moreover have "unat key div 16 ^ i mod 16 < 256"
    by (rule less_trans[OF mod_less_divisor]) simp_all
  ultimately show ?thesis
    by (simp add: nibble_def unsigned_ucast_eq take_bit_eq_mod)
qed

lemma length_transform_upto:
  "length (foldl (transform_step key) buf [0..<n]) = length buf"
  by (induction n) (simp_all add: transform_step_def)

lemma nth_transform_upto:
  "n \<le> 16 \<Longrightarrow> length buf = 16 \<Longrightarrow> j < 16 \<Longrightarrow>
   foldl (transform_step key) buf [0..<n] ! j = (if 16 - n \<le> j then nibble key (15 - j) else buf ! j)"
proof (induction n)
  case 0 then show ?case by simp
next
  case (Suc n)
  let ?b = "foldl (transform_step key) buf [0..<n]"
  have len: "length ?b = 16" using Suc.prems by (simp add: length_transform_upto)
  have ih: "?b ! j = (if 16 - n \<le> j then nibble key (15 - j) else buf ! j)"
    using Suc by simp
  have step: "foldl (transform_step key) buf [0..<Suc n] = ?b[15 - n := nibble key n]"
    by (simp add: transform_step_def nibble_def)
  show ?case
  proof (cases "j = 15 - n")
    case True
    with Suc.prems len show ?thesis unfolding step by simp
  next
    case False
    with Suc.prems ih show ?thesis unfolding step by auto
  qed
qed

lemma transform_eq:
  assumes "length buf = 16"
  shows "transform key buf = map (\<lambda>j. nibble key (15 - j)) [0..<16]"
proof (rule nth_equalityI)
  show "length (transform key buf) = length (map (\<lambda>j. nibble key (15 - j)) [0..<16])"
    using assms by (simp add: transform_def length_transform_upto)
next
  fix j assume "j < length (transform key buf)"
  then have j: "j < 16" using assms by (simp add: transform_def length_transform_upto)
  then show "transform key buf ! j = map (\<lambda>j. nibble key (15 - j)) [0..<16] ! j"
    using nth_transform_upto[of 16 buf j key] assms by (simp add: transform_def)
qed

lemma digits_val_bound: "\<forall>d\<in>set ds. unat d < 16 \<Longrightarrow> digits_val ds < 16 ^ length ds"
proof (induction ds)
  case Nil then show ?case by simp
next
  case (Cons d ds)
  then have "unat d \<le> 15" and "digits_val ds < 16 ^ length ds" by auto
  then have "unat d * 16 ^ length ds + digits_val ds < 15 * 16 ^ length ds + 16 ^ length ds"
    by (meson add_le_less_mono mult_le_mono1)
  then show ?case by simp
qed

lemma digits_lex:
  "length xs = length ys \<Longrightarrow> \<forall>d\<in>set xs. unat d < 16 \<Longrightarrow> \<forall>d\<in>set ys. unat d < 16 \<Longrightarrow>
   digits_val xs < digits_val ys \<Longrightarrow> ord_class.lexordp xs ys"
proof (induction xs ys rule: list_induct2)
  case Nil then show ?case by simp
next
  case (Cons x xs y ys)
  have bx: "digits_val xs < 16 ^ length xs" and by': "digits_val ys < 16 ^ length ys"
    using Cons.prems digits_val_bound by auto
  consider "x < y" | "x = y" | "y < x" by (metis linorder_less_linear)
  then show ?case
  proof cases
    case 1 then show ?thesis by simp
  next
    case 2
    with Cons.prems have "digits_val xs < digits_val ys" using Cons.hyps by simp
    with Cons 2 show ?thesis by simp
  next
    case 3
    then have "unat y + 1 \<le> unat x" by (simp add: word_less_nat_alt)
    then have "(unat y + 1) * 16 ^ length ys \<le> unat x * 16 ^ length ys"
      by (rule mult_le_mono1)
    with by' have "digits_val (y # ys) < unat x * 16 ^ length ys" by simp
    with Cons.hyps Cons.prems(3) show ?thesis by simp
  qed
qed

lemma digits_val_nibbles:
  "digits_val (map (\<lambda>j. nibble key (n - 1 - j)) [0..<n]) = unat key mod 16 ^ n"
proof (induction n)
  case 0 then show ?case by simp
next
  case (Suc n)
  have "[0..<Suc n] = 0 # map Suc [0..<n]"
    by (simp add: upt_conv_Cons map_Suc_upt del: upt_Suc)
  then have "map (\<lambda>j. nibble key (Suc n - 1 - j)) [0..<Suc n]
      = nibble key n # map (\<lambda>j. nibble key (n - 1 - j)) [0..<n]"
    by (simp add: comp_def del: upt_Suc)
  then have "digits_val (map (\<lambda>j. nibble key (Suc n - 1 - j)) [0..<Suc n])
      = unat key div 16 ^ n mod 16 * 16 ^ n + unat key mod 16 ^ n"
    using Suc by (simp add: unat_nibble del: upt_Suc)
  also have "\<dots> = unat key mod (16 ^ n * 16)"
    using mod_mult2_eq[of "unat key" "16 ^ n" 16] by (simp add: mult.commute)
  also have "\<dots> = unat key mod 16 ^ Suc n"
    by (simp add: mult.commute)
  finally show ?case .
qed

lemma digits_val_transform:
  assumes "length buf = 16" shows "digits_val (transform key buf) = unat key"
proof -
  have "unat key < 2 ^ 64" using unsigned_less[of key] by simp
  then have "unat key mod 16 ^ 16 = unat key" by simp
  then show ?thesis
    using digits_val_nibbles[of key 16] transform_eq[OF assms, of key] by simp
qed

lemma transform_nth:
  assumes "length buf = 16" and "j < 16"
  shows "transform key buf ! j = nibble key (15 - j)"
  using assms by (simp add: transform_eq del: upt_Suc)

lemma unat_transform_nth_less:
  assumes "length buf = 16" and "j < 16"
  shows "unat (transform key buf ! j) < 16"
  using assms by (simp add: transform_nth unat_nibble)

lemma transform_lexordp:
  assumes "length bufa = 16" and "length bufb = 16" and "a < b"
  shows "ord_class.lexordp (transform a bufa) (transform b bufb)"
proof (rule digits_lex)
  show "length (transform a bufa) = length (transform b bufb)"
    using assms by (simp add: transform_eq del: upt_Suc)
  show "\<forall>d\<in>set (transform a bufa). unat d < 16"
    using assms(1) by (simp add: transform_eq unat_nibble del: upt_Suc)
  show "\<forall>d\<in>set (transform b bufb). unat d < 16"
    using assms(2) by (simp add: transform_eq unat_nibble del: upt_Suc)
  show "digits_val (transform a bufa) < digits_val (transform b bufb)"
    using assms by (simp add: digits_val_transform word_less_nat_alt)
qed

text \<open>
  Claim C6. For the 64-bit key transformer, \<open>buf_size\<close> is 16; \<open>transform\<close> fills a buffer
  of that size with 16 values, each below 16, the value at position \<open>j\<close> being the 4-bit
  group \<open>15 - j\<close> of the key (most significant group first); and for keys \<open>a < b\<close> the
  sequence written for \<open>a\<close> is lexicographically less than the one written for \<open>b\<close>.
\<close>

theorem transform_order_preserving:
  "buf_size = 16 \<and>
   (length buf = buf_size \<longrightarrow>
      length (transform key buf) = 16 \<and>
      (\<forall>j<16. unat (transform key buf ! j) < 16 \<and>
              transform key buf ! j = ucast (drop_bit (4 * (15 - j)) key AND 0xf))) \<and>
   (length bufa = buf_size \<longrightarrow> length bufb = buf_size \<longrightarrow> a < b \<longrightarrow>
      ord_class.lexordp (transform a bufa) (transform b bufb))"
proof (intro conjI impI allI)
  show "buf_size = 16" by (simp add: buf_size_def)
next
  assume "length buf = buf_size"
  then show "length (transform key buf) = 16"
    by (simp add: buf_size_def transform_def length_transform_upto)
next
  fix j :: nat
  assume "length buf = buf_size" and "j < 16"
  then show "unat (transform key buf ! j) < 16"
    by (simp add: buf_size_def unat_transform_nth_less)
next
  fix j :: nat
  assume "length buf = buf_size" and "j < 16"
  then show "transform key buf ! j = ucast (drop_bit (4 * (15 - j)) key AND 0xf)"
    by (simp add: buf_size_def transform_nth nibble_def)
next
  assume "length bufa = buf_size" and "length bufb = buf_size" and "a < b"
  then show "ord_class.lexordp (transform a bufa) (transform b bufb)"
    by (simp add: buf_size_def transform_lexordp)
qed

theorem transform_order_preserving_witness:
  "length (transform 0x123456789ABCDEF0 (replicate 16 0)) = 16 \<and>
   unat (transform 0x123456789ABCDEF0 (replicate 16 0) ! 3) < 16 \<and>
   transform 0x123456789ABCDEF0 (replicate 16 0) ! 3 = 4 \<and>
   ord_class.lexordp (transform 0xFF (replicate 16 0)) (transform 0x100 (replicate 16 0))"
  using transform_order_preserving
          [of "replicate 16 0" "0x123456789ABCDEF0" "replicate 16 0" "replicate 16 0" "0xFF" "0x100"]
  by (simp add: buf_size_def)

lemma length_t_key_of [simp]: "length (t_key_of key) = 16"
  by (simp add: t_key_of_def buf_size_def transform_def length_transform_upto)

lemma t_key_of_less: "t \<in> set (t_key_of key) \<Longrightarrow> unat t < 16"
  by (auto simp: t_key_of_def buf_size_def transform_eq unat_nibble simp del: upt_Suc)

section \<open>Version words\<close>

lemma tid_lock_Some: "tid_lock v = Some y \<Longrightarrow> \<not> is_locked v \<and> y = (v OR lock_bit)"
  by (rule tid_lock.raw_induct[where P = "\<lambda>v y. \<not> is_locked v \<and> y = (v OR lock_bit)"])
     (auto split: if_splits)

lemma tid_lock_eq: "tid_lock v = (if is_locked v then None else Some (v OR lock_bit))"
proof (cases "is_locked v")
  case True
  then have "tid_lock v = None" using tid_lock_Some[of v] by (cases "tid_lock v") auto
  with True show ?thesis by simp
next
  case False
  then show ?thesis by (subst tid_lock.simps) simp
qed

lemma take_bit_add_increment: "take_bit 3 (v + increment_value) = take_bit 3 v"
proof -
  have d: "(8::nat) dvd 2 ^ 64" by simp
  have "unat (v + 8) mod 8 = (unat v + 8) mod 8"
    using mod_mod_cancel[OF d, of "unat v + 8"] by (simp add: unat_word_ariths)
  then have "unat (take_bit 3 (v + 8)) = unat (take_bit 3 v)"
    unfolding unsigned_take_bit_eq by (simp add: take_bit_eq_mod)
  then show ?thesis by (simp add: increment_value_def word_unat_eq_iff)
qed

lemma bit_add_increment: "i < 3 \<Longrightarrow> bit (v + increment_value) i = bit v i"
proof -
  assume i: "i < 3"
  have "bit (take_bit 3 (v + increment_value)) i = bit (take_bit 3 v) i"
    by (simp only: take_bit_add_increment)
  with i show ?thesis by (simp add: bit_take_bit_iff)
qed

lemma is_locked_bit: "is_locked v = bit v 0"
  by (simp add: is_locked_def lock_bit_def  and_one_eq mod_2_eq_odd bit_0)

lemma valid_test: "(v AND valid_bit \<noteq> 0) = bit v 1"
proof -
  have "v AND valid_bit = v AND 2 ^ 1" by (simp add: valid_bit_def)
  then show ?thesis by (simp only: and_exp_eq_0_iff_not_bit) simp
qed

lemma insert_test: "(v AND ver_insert_bit \<noteq> 0) = bit v 2"
proof -
  have "v AND ver_insert_bit = v AND 2 ^ 2" by (simp add: ver_insert_bit_def user_bit1_def)
  then show ?thesis by (simp only: and_exp_eq_0_iff_not_bit) simp
qed

lemma bit_lock_bit: "bit lock_bit i \<longleftrightarrow> i = 0"
  by (auto simp: lock_bit_def bit_simps)

lemma bit_valid_bit: "bit valid_bit i \<longleftrightarrow> i = 1"
proof -
  have e: "valid_bit = 2 ^ 1" by (simp add: valid_bit_def)
  show ?thesis by (subst e, simp only: bit_exp_iff possible_bit_word) auto
qed

lemma bit_ver_insert_bit: "bit ver_insert_bit i \<longleftrightarrow> i = 2"
proof -
  have e: "ver_insert_bit = 2 ^ 2" by (simp add: ver_insert_bit_def user_bit1_def)
  show ?thesis by (subst e, simp only: bit_exp_iff possible_bit_word) auto
qed

lemmas bit_consts = bit_lock_bit bit_valid_bit bit_ver_insert_bit

lemma is_valid_bit: "is_valid v = bit v (Suc 0)"
  using valid_test[of v] by (simp add: is_valid_def)

lemma is_inserting_bit: "is_inserting v = bit v 2"
  using insert_test[of v] by (simp add: is_inserting_def)

lemmas flag_bits = is_locked_bit is_valid_bit is_inserting_bit

lemma or_lock_add_increment:
  assumes "\<not> is_locked v"
  shows "(v OR lock_bit) + increment_value = (v + increment_value) OR lock_bit"
proof -
  have e: "even v" using assms by (simp add: is_locked_bit bit_0)
  have e': "even (v + increment_value)" by (simp add: e increment_value_def)
  show ?thesis using e e' by (simp add: lock_bit_def or_one_eq)
qed

lemma is_locked_add_increment [simp]: "is_locked (v + increment_value) = is_locked v"
  by (simp add: is_locked_bit bit_add_increment)

lemma tid_unlock_or_lock [simp]: "tid_unlock (v OR lock_bit) = tid_unlock v"
  by (rule bit_word_eqI) (auto simp: tid_unlock_def lock_bit_def bit_simps)

lemma tid_unlock_unlocked: "\<not> is_locked v \<Longrightarrow> tid_unlock v = v"
  by (rule bit_word_eqI) (auto simp: tid_unlock_def lock_bit_def bit_simps is_locked_bit bit_0)

lemma not_is_locked_tid_unlock [simp]: "\<not> is_locked (tid_unlock v)"
  by (simp add: is_locked_bit tid_unlock_def lock_bit_def bit_simps)

lemma not_locked_increment_value [simp]: "\<not> is_locked increment_value"
  by (simp add: is_locked_def increment_value_def lock_bit_def)

lemma not_locked_ver_insert_bit [simp]: "\<not> is_locked ver_insert_bit"
  by (simp add: is_locked_def ver_insert_bit_def user_bit1_def lock_bit_def)

lemma bump_unlock:
  "\<not> is_locked v \<Longrightarrow> tid_unlock ((v OR lock_bit) + increment_value) = v + increment_value"
  by (simp add: or_lock_add_increment tid_unlock_unlocked)

lemma unlock_put_version:
  assumes "\<not> is_locked v"
  shows "tid_unlock ((((v OR lock_bit) + increment_value) OR valid_bit) AND NOT ver_insert_bit)
         = put_version v"
proof -
  have "\<not> bit (v + increment_value) 0" using assms by (simp add: is_locked_bit bit_add_increment)
  then show ?thesis
    unfolding or_lock_add_increment[OF assms] put_version_def tid_unlock_def
    by (intro bit_word_eqI) (auto simp: bit_simps bit_consts intro: gr0I)
qed

lemma unlock_remove_version:
  assumes "\<not> is_locked v"
  shows "tid_unlock (((v OR lock_bit) + increment_value) AND (NOT valid_bit AND NOT ver_insert_bit))
         = remove_version v"
proof -
  have "\<not> bit (v + increment_value) 0" using assms by (simp add: is_locked_bit bit_add_increment)
  then show ?thesis
    unfolding or_lock_add_increment[OF assms] remove_version_def tid_unlock_def
    by (intro bit_word_eqI) (auto simp: bit_simps bit_consts intro: gr0I)
qed

lemma put_version_bits [simp]:
  "is_valid (put_version v)" "\<not> is_inserting (put_version v)"
  "is_locked (put_version v) = is_locked v"
  by (simp_all add: flag_bits put_version_def bit_simps bit_consts bit_add_increment)

lemma remove_version_bits [simp]:
  "\<not> is_valid (remove_version v)" "\<not> is_inserting (remove_version v)"
  "is_locked (remove_version v) = is_locked v"
  by (simp_all add: flag_bits remove_version_def bit_simps bit_consts bit_add_increment)

lemma remove_version_twice:
  "remove_version (remove_version v) = remove_version v + increment_value"
proof (rule bit_word_eqI)
  fix i assume i: "i < LENGTH(64)"
  let ?r = "remove_version v"
  have low: "\<not> bit ?r (Suc 0)" "\<not> bit ?r 2"
    using remove_version_bits(1,2)[of v] by (simp_all add: flag_bits)
  have low': "\<not> bit (?r + increment_value) (Suc 0)" "\<not> bit (?r + increment_value) 2"
    using low by (simp_all add: bit_add_increment)
  show "bit (remove_version ?r) i = bit (?r + increment_value) i"
    using low' i by (cases "i = Suc 0 \<or> i = 2") (auto simp: remove_version_def bit_simps bit_consts)
qed

lemma put_version_insert_only: "put_version ver_insert_bit = 10"
  by (simp add: put_version_def ver_insert_bit_def user_bit1_def increment_value_def valid_bit_def)

lemma not_same_version_bump: "\<not> same_version (v + increment_value) v"
proof
  assume "same_version (v + increment_value) v"
  then have e: "(v + increment_value) AND NOT lock_bit = v AND NOT lock_bit"
    by (simp add: same_version_def)
  have "v + increment_value = v"
  proof (rule bit_word_eqI)
    fix i assume i: "i < LENGTH(64)"
    show "bit (v + increment_value) i = bit v i"
    proof (cases "i = 0")
      case True
      then show ?thesis by (simp add: bit_add_increment)
    next
      case False
      have "bit ((v + increment_value) AND NOT lock_bit) i = bit (v AND NOT lock_bit) i"
        by (simp only: e)
      with False i show ?thesis by (simp add: bit_simps bit_lock_bit)
    qed
  qed
  then show False by (simp add: increment_value_def)
qed

lemma same_version_refl [simp]: "same_version v v"
  by (simp add: same_version_def)

lemma drop_bit_tid_unlock: "drop_bit 3 (tid_unlock v) = drop_bit 3 v"
  by (rule bit_word_eqI) (auto simp: tid_unlock_def bit_simps bit_consts dest: bit_imp_le_length)

lemma drop_bit_put_version: "drop_bit 3 (put_version v) = drop_bit 3 (v + increment_value)"
  by (rule bit_word_eqI) (auto simp: put_version_def bit_simps bit_consts dest: bit_imp_le_length)

lemma drop_bit_remove_version: "drop_bit 3 (remove_version v) = drop_bit 3 (v + increment_value)"
  by (rule bit_word_eqI) (auto simp: remove_version_def bit_simps bit_consts dest: bit_imp_le_length)

lemma unlocked_less:
  fixes v w :: version_t
  assumes nw: "unat v + 8 < 2 ^ 64" and d: "drop_bit 3 w = drop_bit 3 (v + increment_value)"
  shows "tid_unlock v < tid_unlock w"
proof -
  have div: "unat (drop_bit 3 x) = unat x div 8" for x :: version_t
    by (simp only: unat_drop_bit_eq) (simp add: drop_bit_eq_div)
  have "unat (v + 8) = unat v + 8"
    using nw by (simp add: unat_add_lem[THEN iffD1])
  then have "unat (v + increment_value) div 8 = unat v div 8 + 1"
    by (simp add: increment_value_def)
  moreover have "unat (tid_unlock w) div 8 = unat (v + increment_value) div 8"
    using d div[of "tid_unlock w"] div[of "v + increment_value"] by (simp add: drop_bit_tid_unlock)
  moreover have "unat (tid_unlock v) div 8 = unat v div 8"
    using div[of "tid_unlock v"] div[of v] by (simp add: drop_bit_tid_unlock)
  ultimately have "unat (tid_unlock v) div 8 < unat (tid_unlock w) div 8" by simp
  then have "unat (tid_unlock v) < unat (tid_unlock w)"
    by (metis div_le_mono linorder_not_less)
  then show ?thesis by (simp add: word_less_nat_alt)
qed

lemma leaf_bits_ok_simps [simp]:
  "leaf_bits_ok ver_insert_bit"
  "leaf_bits_ok (v + increment_value) = leaf_bits_ok v"
  "leaf_bits_ok (v OR lock_bit) = leaf_bits_ok v"
  "leaf_bits_ok (tid_unlock v) = leaf_bits_ok v"
  "leaf_bits_ok ((v OR valid_bit) AND NOT ver_insert_bit)"
  "leaf_bits_ok ((v AND NOT valid_bit) AND NOT ver_insert_bit)"
  "leaf_bits_ok (v AND NOT valid_bit AND NOT ver_insert_bit)"
  by (simp_all add: leaf_bits_ok_def flag_bits bit_simps bit_consts bit_add_increment tid_unlock_def)

section \<open>Outcomes and the atomic read\<close>

lemma rbind_Ok [simp]: "rbind (Ok x) f = f x"
  by (simp add: rbind_def)

lemma rbind_eq_Ok: "rbind r f = Ok y \<longleftrightarrow> (\<exists>x. r = Ok x \<and> f x = Ok y)"
  by (cases r) (simp_all add: rbind_def)

lemma atomic_read_eq:
  "atomic_read s vv =
     (case store s vv of Some (VValue l) \<Rightarrow> Some (Ok (vv_value l, vv_version l)) | _ \<Rightarrow> Some Fault)"
  by (subst atomic_read.simps) (simp split: option.splits obj.splits)

lemma run_atomic_read:
  "store s p = Some (VValue l) \<Longrightarrow> run (atomic_read s p) = Ok (vv_value l, vv_version l)"
  by (simp add: atomic_read_eq run_def)

section \<open>Descent on a well-formed heap\<close>

lemma wf_levels_RadixTree: "wf_levels (\<lambda>_. 0) RadixTree"
  by (auto simp: wf_levels_def typed_def RadixTree_def root_addr_def new_tree_node_def
        buf_size_def fanout_def span_def)

lemma wf_RadixTree: "well_formed RadixTree"
  unfolding well_formed_def using wf_levels_RadixTree by blast

lemma quiescent_RadixTree: "quiescent RadixTree"
  by (auto simp: quiescent_def RadixTree_def new_tree_node_def split: if_splits)

lemma get_value_loop_wf:
  assumes "wf_levels lv s" and "typed lv s (buf_size - length ts) cur"
    and "length ts \<le> buf_size" and "\<forall>t\<in>set ts. unat t < 16"
  shows "(\<exists>p l. get_value_loop s cur ts = Ok (True, p) \<and> store s p = Some (VValue l)) \<or>
         (\<exists>n nd. get_value_loop s cur ts = Ok (False, n) \<and> store s n = Some (TreeNode nd))"
  using assms
proof (induction ts arbitrary: cur)
  case Nil
  then show ?case by (simp add: typed_def)
next
  case (Cons t ts)
  have d: "buf_size - length (t # ts) < buf_size" using Cons.prems(3) by (simp add: buf_size_def)
  then obtain nd where cur: "store s cur = Some (TreeNode nd)"
    and lvcur: "lv cur = buf_size - length (t # ts)"
    using Cons.prems(2) by (auto simp: typed_def)
  have len: "length (children nd) = 16"
    using Cons.prems(1) cur by (simp add: wf_levels_def fanout_def span_def)
  have t: "unat t < 16" using Cons.prems(4) by simp
  show ?case
  proof (cases "children nd ! unat t")
    case None
    then show ?thesis using cur len t by simp
  next
    case (Some c)
    have "typed lv s (Suc (lv cur)) c"
      using Cons.prems(1) cur t Some by (auto simp: wf_levels_def fanout_def span_def)
    moreover have "Suc (buf_size - length (t # ts)) = buf_size - length ts"
      using Cons.prems(3) by simp
    ultimately have "typed lv s (buf_size - length ts) c" using lvcur by simp
    then show ?thesis using Cons.IH[of c] Cons.prems cur len t Some by simp
  qed
qed

lemma get_value_wf:
  assumes "well_formed s"
  shows "(\<exists>p l. get_value s key = Ok (True, p) \<and> store s p = Some (VValue l)) \<or>
         (\<exists>n nd. get_value s key = Ok (False, n) \<and> store s n = Some (TreeNode nd))"
proof -
  from assms obtain lv where lv: "wf_levels lv s" unfolding well_formed_def by blast
  then have ty: "typed lv s (buf_size - length (t_key_of key)) root_addr"
    by (simp add: wf_levels_def buf_size_def)
  show ?thesis
    unfolding get_value_def
    by (rule get_value_loop_wf[OF lv ty]) (auto simp: buf_size_def t_key_of_less)
qed

lemma get_value_RadixTree: "get_value RadixTree key = Ok (False, root_addr)"
proof -
  obtain t ts where ts: "t_key_of key = t # ts"
    using length_t_key_of[of key] by (cases "t_key_of key") auto
  then have "unat t < 16" using t_key_of_less[of t key] by simp
  then show ?thesis
    by (simp add: get_value_def ts RadixTree_def new_tree_node_def fanout_def span_def)
qed

section \<open>Growing the tree\<close>

lemma insert_step_empty_cases:
  assumes wf: "wf_levels lv s" and cur: "store s cur = Some (TreeNode nd)"
    and t: "unat t < 16" and empty: "children nd ! unat t = None"
  shows "insert_step V s cur t is_last =
     (if is_locked (version nd) then Spin else Ok (grown V s cur nd t is_last))"
proof -
  have len: "length (children nd) = 16"
    using wf cur by (simp add: wf_levels_def fanout_def span_def)
  have ne: "cur \<noteq> next_addr s"
    using wf cur by (auto simp: wf_levels_def)
  show ?thesis
    using len ne cur t empty
    by (simp add: insert_step_def publish_def alloc_def new_obj_def tid_lock_eq set_version_def
        bump_unlock grown_def)
qed

lemma insert_step_empty:
  assumes wf: "wf_levels lv s" and q: "quiescent s"
    and cur: "store s cur = Some (TreeNode nd)"
    and t: "unat t < 16" and empty: "children nd ! unat t = None"
  shows "insert_step V s cur t is_last = Ok (grown V s cur nd t is_last)"
  using insert_step_empty_cases[OF wf cur t empty] q cur by (auto simp: quiescent_def)

lemma insert_step_present:
  assumes cur: "store s cur = Some (TreeNode nd)"
    and t: "unat t < length (children nd)" and c: "children nd ! unat t = Some c"
  shows "insert_step V s cur t is_last = Ok s" and "child_of s cur t = Ok c"
  using assms by (simp_all add: insert_step_def child_of_def)

lemma heap_le_refl: "heap_le s s"
  by (simp add: heap_le_def)

lemma heap_le_trans: "heap_le s1 s2 \<Longrightarrow> heap_le s2 s3 \<Longrightarrow> heap_le s1 s3"
proof -
  assume a: "heap_le s1 s2" and b: "heap_le s2 s3"
  have leaves: "store s3 p = Some (VValue l)" if "store s1 p = Some (VValue l)" for p l
    using a b that by (simp add: heap_le_def)
  have nodes: "\<exists>n'. store s3 p = Some (TreeNode n') \<and> length (children n') = length (children n) \<and>
           (\<forall>i c. i < length (children n) \<longrightarrow> children n ! i = Some c \<longrightarrow> children n' ! i = Some c)"
    if n: "store s1 p = Some (TreeNode n)" for p n
  proof -
    from a n obtain n2 where n2: "store s2 p = Some (TreeNode n2)" "length (children n2) = length (children n)"
      "\<And>i c. i < length (children n) \<Longrightarrow> children n ! i = Some c \<Longrightarrow> children n2 ! i = Some c"
      unfolding heap_le_def by blast
    from b n2(1) obtain n3 where n3: "store s3 p = Some (TreeNode n3)" "length (children n3) = length (children n2)"
      "\<And>i c. i < length (children n2) \<Longrightarrow> children n2 ! i = Some c \<Longrightarrow> children n3 ! i = Some c"
      unfolding heap_le_def by blast
    show ?thesis using n2 n3 by auto
  qed
  show ?thesis unfolding heap_le_def using leaves nodes by blast
qed

lemma typed_grown:
  assumes "typed lv s d c" and "store s cur = Some (TreeNode nd)" and "store s (next_addr s) = None"
  shows "typed (lv(next_addr s := e)) (grown V s cur nd t is_last) d c"
  using assms by (auto simp: typed_def grown_def)

lemma wf_levels_grown:
  assumes wf: "wf_levels lv s" and cur: "store s cur = Some (TreeNode nd)"
    and t: "unat t < 16" and last: "is_last \<longleftrightarrow> Suc (lv cur) = buf_size"
  shows "wf_levels (lv(next_addr s := Suc (lv cur))) (grown V s cur nd t is_last)"
proof -
  let ?a = "next_addr s"
  let ?lv = "lv(?a := Suc (lv cur))"
  let ?s = "grown V s cur nd t is_last"
  have fresh: "store s ?a = None" using wf by (auto simp: wf_levels_def)
  have ne: "cur \<noteq> ?a" using fresh cur by auto
  have root: "typed ?lv ?s 0 root_addr"
    using wf typed_grown[OF _ cur fresh] by (simp add: wf_levels_def)
  have "cur < ?a" using wf cur by (auto simp: wf_levels_def)
  then have dom: "\<forall>p. store ?s p \<noteq> None \<longrightarrow> p < next_addr ?s"
    using wf by (auto simp: wf_levels_def grown_def less_Suc_eq)
  have lvcur: "lv cur < buf_size" and len: "length (children nd) = fanout"
    and kids: "\<And>i c. i < fanout \<Longrightarrow> children nd ! i = Some c \<Longrightarrow> typed lv s (Suc (lv cur)) c"
    using wf cur by (auto simp: wf_levels_def)
  have new: "typed ?lv ?s (Suc (lv cur)) ?a"
    using last lvcur ne by (auto simp: typed_def grown_def new_obj_def)
  have nodes: "lv' p < buf_size \<and> length (children node) = fanout \<and>
        (\<forall>i c. i < fanout \<longrightarrow> children node ! i = Some c \<longrightarrow> typed lv' ?s (Suc (lv' p)) c)"
    if p: "store ?s p = Some (TreeNode node)" and lv': "lv' = ?lv" for p node lv'
  proof (cases "p = cur")
    case True
    then have node: "node = nd\<lparr>children := (children nd)[unat t := Some ?a], version := version nd + increment_value\<rparr>"
      using p by (simp add: grown_def)
    have "typed ?lv ?s (Suc (lv cur)) c" if "i < fanout" "children node ! i = Some c" for i c
    proof (cases "i = unat t")
      case True
      then have "c = ?a" using that len node by simp
      then show ?thesis using new by simp
    next
      case False
      then have "children nd ! i = Some c" using that node by simp
      then show ?thesis using kids that typed_grown[OF _ cur fresh] by blast
    qed
    then show ?thesis using True ne lvcur len node lv' by simp
  next
    case False
    show ?thesis
    proof (cases "p = ?a")
      case True
      then have "node = new_tree_node (Some cur) t" and nl: "\<not> is_last"
        using p ne by (auto simp: grown_def new_obj_def split: if_splits)
      then show ?thesis using True last lvcur lv'
        by (auto simp: new_tree_node_def)
    next
      case na: False
      then have old: "store s p = Some (TreeNode node)" using p False by (simp add: grown_def)
      then have "lv p < buf_size" "length (children node) = fanout"
        and "\<And>i c. i < fanout \<Longrightarrow> children node ! i = Some c \<Longrightarrow> typed lv s (Suc (lv p)) c"
        using wf by (auto simp: wf_levels_def)
      then show ?thesis using na lv' typed_grown[OF _ cur fresh] by auto
    qed
  qed
  show ?thesis
    unfolding wf_levels_def using root dom nodes by blast
qed

lemma quiescent_grown:
  assumes "quiescent s" and "store s cur = Some (TreeNode nd)"
  shows "quiescent (grown V s cur nd t is_last)"
  using assms
  by (auto simp: quiescent_def grown_def new_obj_def new_tree_node_def split: if_splits)

lemma heap_le_grown:
  assumes "wf_levels lv s" and "store s cur = Some (TreeNode nd)" and "children nd ! unat t = None"
  shows "heap_le s (grown V s cur nd t is_last)"
proof -
  have fresh: "store s (next_addr s) = None" using assms(1) by (auto simp: wf_levels_def)
  have kept: "(children nd)[unat t := x] ! i = Some c" if "children nd ! i = Some c" for i c x
    using that assms(3) by (cases "i = unat t") auto
  show ?thesis
    unfolding heap_le_def grown_def using fresh assms(2) kept
    by auto
qed

lemma insert_nodes_loop_wf:
  assumes "wf_levels lv s" and "quiescent s" and "typed lv s (buf_size - length ts) cur"
    and "length ts \<le> buf_size" and "\<forall>t\<in>set ts. unat t < 16"
  shows "\<exists>s' p lv'. insert_nodes_loop V s cur ts = Ok (s', p) \<and> wf_levels lv' s' \<and> quiescent s' \<and>
       heap_le s s' \<and> next_addr s \<le> next_addr s' \<and>
       get_value_loop s' cur ts = Ok (True, p) \<and> (\<exists>l. store s' p = Some (VValue l)) \<and>
       (case get_value_loop s cur ts of
          Ok (True, p0) \<Rightarrow> s' = s \<and> p = p0
        | Ok (False, n) \<Rightarrow> only_bumped V s s' n p
        | _ \<Rightarrow> False)"
  using assms
proof (induction ts arbitrary: s cur lv)
  case Nil
  then have "\<exists>l. store s cur = Some (VValue l)" by (simp add: typed_def)
  then show ?case using Nil.prems(1,2) by (auto simp: heap_le_refl)
next
  case (Cons t ts)
  let ?d = "buf_size - length (t # ts)"
  have d: "?d < buf_size" using Cons.prems(4) by (simp add: buf_size_def)
  then obtain nd where cur: "store s cur = Some (TreeNode nd)" and lvcur: "lv cur = ?d"
    using Cons.prems(3) by (auto simp: typed_def)
  have len: "length (children nd) = 16"
    using Cons.prems(1) cur by (simp add: wf_levels_def fanout_def span_def)
  have t: "unat t < 16" and ts: "\<forall>t\<in>set ts. unat t < 16" using Cons.prems(5) by simp_all
  have sd: "Suc ?d = buf_size - length ts" and lts: "length ts \<le> buf_size"
    using Cons.prems(4) by simp_all
  show ?case
  proof (cases "children nd ! unat t")
    case (Some c)
    have loop: "insert_nodes_loop V s cur (t # ts) = insert_nodes_loop V s c ts"
      using insert_step_present[OF cur _ Some] len t by simp
    have gv: "get_value_loop s cur (t # ts) = get_value_loop s c ts"
      using cur len t Some by simp
    have "typed lv s (Suc (lv cur)) c"
      using Cons.prems(1) cur t Some by (auto simp: wf_levels_def fanout_def span_def)
    then have ty: "typed lv s (buf_size - length ts) c" using lvcur sd by simp
    from Cons.IH[OF Cons.prems(1,2) ty lts ts]
    obtain s' p lv' where r: "insert_nodes_loop V s c ts = Ok (s', p)" "wf_levels lv' s'"
      "quiescent s'" "heap_le s s'" "next_addr s \<le> next_addr s'"
      "get_value_loop s' c ts = Ok (True, p)" "\<exists>l. store s' p = Some (VValue l)"
      "(case get_value_loop s c ts of
          Ok (True, p0) \<Rightarrow> s' = s \<and> p = p0
        | Ok (False, n) \<Rightarrow> only_bumped V s s' n p
        | _ \<Rightarrow> False)"
      by blast
    from r(4) cur obtain nd' where nd': "store s' cur = Some (TreeNode nd')"
      "length (children nd') = length (children nd)" "children nd' ! unat t = Some c"
      using Some len t unfolding heap_le_def by (metis (no_types, lifting) )
    then have "get_value_loop s' cur (t # ts) = Ok (True, p)"
      using r(6) len t by simp
    then show ?thesis using r loop gv by auto
  next
    case None
    let ?s2 = "grown V s cur nd t (ts = [])"
    let ?a = "next_addr s"
    let ?lv2 = "lv(?a := Suc (lv cur))"
    have ne: "cur \<noteq> ?a" using Cons.prems(1) cur by (auto simp: wf_levels_def)
    have step1: "insert_step V s cur t (ts = []) = Ok ?s2"
      by (rule insert_step_empty[OF Cons.prems(1,2) cur t None])
    have child: "child_of ?s2 cur t = Ok ?a"
      using len t by (simp add: child_of_def grown_def)
    have loop: "insert_nodes_loop V s cur (t # ts) = insert_nodes_loop V ?s2 ?a ts"
      using step1 child by simp
    have gv: "get_value_loop s cur (t # ts) = Ok (False, cur)"
      using cur len t None by simp
    have last: "(ts = []) \<longleftrightarrow> Suc (lv cur) = buf_size"
      using lvcur Cons.prems(4) by (cases ts) (auto simp: buf_size_def)
    have wf2: "wf_levels ?lv2 ?s2" by (rule wf_levels_grown[OF Cons.prems(1) cur t last])
    have q2: "quiescent ?s2" by (rule quiescent_grown[OF Cons.prems(2) cur])
    have le2: "heap_le s ?s2" by (rule heap_le_grown[OF Cons.prems(1) cur None])
    have ty2: "typed ?lv2 ?s2 (buf_size - length ts) ?a"
      using last lvcur sd ne by (auto simp: typed_def grown_def new_obj_def)
    from Cons.IH[OF wf2 q2 ty2 lts ts]
    obtain s' p lv' where r: "insert_nodes_loop V ?s2 ?a ts = Ok (s', p)" "wf_levels lv' s'"
      "quiescent s'" "heap_le ?s2 s'" "next_addr ?s2 \<le> next_addr s'"
      "get_value_loop s' ?a ts = Ok (True, p)" "\<exists>l. store s' p = Some (VValue l)"
      "(case get_value_loop ?s2 ?a ts of
          Ok (True, p0) \<Rightarrow> s' = ?s2 \<and> p = p0
        | Ok (False, n) \<Rightarrow> only_bumped V ?s2 s' n p
        | _ \<Rightarrow> False)"
      by blast
    have cur2: "store ?s2 cur = Some (TreeNode (nd\<lparr>children := (children nd)[unat t := Some ?a],
                                     version := version nd + increment_value\<rparr>))"
      by (simp add: grown_def)
    from r(4) cur2 obtain nd' where nd': "store s' cur = Some (TreeNode nd')"
      "length (children nd') = 16" "children nd' ! unat t = Some ?a"
      using len t unfolding heap_le_def by fastforce
    then have gv': "get_value_loop s' cur (t # ts) = Ok (True, p)"
      using r(6) t by simp
    have le: "heap_le s s'" using le2 r(4) by (rule heap_le_trans)
    have nx: "next_addr s \<le> next_addr s'" using r(5) by (simp add: grown_def)
    have ob: "only_bumped V s s' cur p"
    proof (cases ts)
      case Nil
      then have "s' = ?s2" "p = ?a" using r(8) by simp_all
      then show ?thesis using Nil cur ne
        by (auto simp: only_bumped_def grown_def new_obj_def)
    next
      case (Cons t' ts')
      then have "store ?s2 ?a = Some (TreeNode (new_tree_node (Some cur) t))"
        using ne by (simp add: grown_def new_obj_def)
      moreover have "unat t' < 16" using ts Cons by simp
      ultimately have "get_value_loop ?s2 ?a ts = Ok (False, ?a)"
        using Cons by (simp add: new_tree_node_def fanout_def span_def)
      then have b: "only_bumped V ?s2 s' ?a p" using r(8) by simp
      have lt: "cur < ?a" using Cons.prems(1) cur by (auto simp: wf_levels_def)
      have "store s' q = store s q" if "q < ?a" "q \<noteq> cur" for q
      proof -
        have "store s' q = store ?s2 q" using b that by (simp add: only_bumped_def grown_def)
        then show ?thesis using that by (simp add: grown_def)
      qed
      moreover have "store s' cur = store ?s2 cur"
        using b lt ne by (simp add: only_bumped_def grown_def)
      moreover have "?a \<le> p" using b by (simp add: only_bumped_def grown_def)
      moreover have "store s' p = Some (VValue \<lparr>vv_version = ver_insert_bit, vv_value = V_init V\<rparr>)"
        using b by (simp add: only_bumped_def)
      ultimately show ?thesis using cur cur2 by (simp add: only_bumped_def)
    qed
    show ?thesis using r(1,2,3,7) loop gv gv' le nx ob by auto
  qed
qed

lemma insert_nodes_wf:
  assumes "well_formed s" and "quiescent s"
  shows "\<exists>s' p. insert_nodes V s key = Ok (s', p) \<and> well_formed s' \<and> quiescent s' \<and>
       heap_le s s' \<and> next_addr s \<le> next_addr s' \<and>
       get_value s' key = Ok (True, p) \<and> (\<exists>l. store s' p = Some (VValue l)) \<and>
       (case get_value s key of
          Ok (True, p0) \<Rightarrow> s' = s \<and> p = p0
        | Ok (False, n) \<Rightarrow> only_bumped V s s' n p
        | _ \<Rightarrow> False)"
proof -
  from assms(1) obtain lv where lv: "wf_levels lv s" unfolding well_formed_def by blast
  then have ty: "typed lv s (buf_size - length (t_key_of key)) root_addr"
    by (simp add: wf_levels_def buf_size_def)
  have "length (t_key_of key) \<le> buf_size" by (simp add: buf_size_def)
  moreover have "\<forall>t\<in>set (t_key_of key). unat t < 16" using t_key_of_less by blast
  ultimately show ?thesis
    using insert_nodes_loop_wf[OF lv assms(2) ty, of V]
    unfolding insert_nodes_def get_value_def well_formed_def by blast
qed

lemma insert_nodes_loop_heap_le:
  assumes "wf_levels lv s" and "typed lv s (buf_size - length ts) cur"
    and "length ts \<le> buf_size" and "\<forall>t\<in>set ts. unat t < 16"
    and "insert_nodes_loop V s cur ts = Ok (s', p)"
  shows "heap_le s s' \<and> (\<exists>lv'. wf_levels lv' s')"
  using assms
proof (induction ts arbitrary: s cur lv)
  case Nil
  then show ?case by (auto simp: heap_le_refl)
next
  case (Cons t ts)
  let ?d = "buf_size - length (t # ts)"
  have d: "?d < buf_size" using Cons.prems(3) by (simp add: buf_size_def)
  then obtain nd where cur: "store s cur = Some (TreeNode nd)" and lvcur: "lv cur = ?d"
    using Cons.prems(2) by (auto simp: typed_def)
  have len: "length (children nd) = 16"
    using Cons.prems(1) cur by (simp add: wf_levels_def fanout_def span_def)
  have t: "unat t < 16" and ts: "\<forall>t\<in>set ts. unat t < 16" using Cons.prems(4) by simp_all
  have sd: "Suc ?d = buf_size - length ts" and lts: "length ts \<le> buf_size"
    using Cons.prems(3) by simp_all
  show ?case
  proof (cases "children nd ! unat t")
    case (Some c)
    have loop: "insert_nodes_loop V s cur (t # ts) = insert_nodes_loop V s c ts"
      using insert_step_present[OF cur _ Some] len t by simp
    have "typed lv s (Suc (lv cur)) c"
      using Cons.prems(1) cur t Some by (auto simp: wf_levels_def fanout_def span_def)
    then have ty: "typed lv s (buf_size - length ts) c" using lvcur sd by simp
    show ?thesis using Cons.IH[OF Cons.prems(1) ty lts ts] Cons.prems(5) loop by simp
  next
    case None
    let ?s2 = "grown V s cur nd t (ts = [])"
    let ?a = "next_addr s"
    let ?lv2 = "lv(?a := Suc (lv cur))"
    have ne: "cur \<noteq> ?a" using Cons.prems(1) cur by (auto simp: wf_levels_def)
    have step: "insert_step V s cur t (ts = []) =
        (if is_locked (version nd) then Spin else Ok ?s2)"
      by (rule insert_step_empty_cases[OF Cons.prems(1) cur t None])
    then have step1: "insert_step V s cur t (ts = []) = Ok ?s2"
      using Cons.prems(5) by (auto simp: rbind_def split: if_splits)
    have child: "child_of ?s2 cur t = Ok ?a"
      using len t by (simp add: child_of_def grown_def)
    have loop: "insert_nodes_loop V ?s2 ?a ts = Ok (s', p)"
      using step1 child Cons.prems(5) by simp
    have last: "(ts = []) \<longleftrightarrow> Suc (lv cur) = buf_size"
      using lvcur Cons.prems(3) by (cases ts) (auto simp: buf_size_def)
    have wf2: "wf_levels ?lv2 ?s2" by (rule wf_levels_grown[OF Cons.prems(1) cur t last])
    have le2: "heap_le s ?s2" by (rule heap_le_grown[OF Cons.prems(1) cur None])
    have ty2: "typed ?lv2 ?s2 (buf_size - length ts) ?a"
      using last lvcur sd ne by (auto simp: typed_def grown_def new_obj_def)
    from Cons.IH[OF wf2 ty2 lts ts loop] le2 show ?thesis
      using heap_le_trans by blast
  qed
qed

lemma insert_nodes_heap_le:
  assumes "well_formed s" and "insert_nodes V s key = Ok (s', p)"
  shows "heap_le s s' \<and> well_formed s'"
proof -
  from assms(1) obtain lv where lv: "wf_levels lv s" unfolding well_formed_def by blast
  then have ty: "typed lv s (buf_size - length (t_key_of key)) root_addr"
    by (simp add: wf_levels_def buf_size_def)
  have "length (t_key_of key) \<le> buf_size" by (simp add: buf_size_def)
  moreover have "\<forall>t\<in>set (t_key_of key). unat t < 16" using t_key_of_less by blast
  ultimately show ?thesis
    using insert_nodes_loop_heap_le[OF lv ty _ _ assms(2)[unfolded insert_nodes_def]]
    unfolding well_formed_def by blast
qed

section \<open>Updates of a leaf\<close>

lemma put_leaf_eq:
  assumes "store s p = Some (VValue l)" and "\<not> is_locked (vv_version l)"
  shows "put_leaf s p val =
     Ok (s\<lparr>store := (store s)(p \<mapsto> VValue \<lparr>vv_version = put_version (vv_version l), vv_value = val\<rparr>)\<rparr>)"
  using assms by (cases l) (simp add: put_leaf_def tid_lock_eq unlock_put_version)

lemma remove_leaf_eq:
  assumes "store s p = Some (VValue l)" and "\<not> is_locked (vv_version l)"
  shows "remove_leaf s p =
     Ok (s\<lparr>store := (store s)(p \<mapsto> VValue (l\<lparr>vv_version := remove_version (vv_version l)\<rparr>))\<rparr>)"
  using assms by (simp add: remove_leaf_def tid_lock_eq unlock_remove_version)

lemma put_leaf_Ok:
  assumes "put_leaf s q val = Ok s'"
  shows "\<exists>lq. store s q = Some (VValue lq) \<and> \<not> is_locked (vv_version lq) \<and>
           s' = s\<lparr>store := (store s)(q \<mapsto> VValue \<lparr>vv_version = put_version (vv_version lq), vv_value = val\<rparr>)\<rparr>"
proof -
  from assms obtain lq where lq: "store s q = Some (VValue lq)"
    by (auto simp: put_leaf_def split: option.splits obj.splits)
  then have ul: "\<not> is_locked (vv_version lq)"
    using assms by (auto simp: put_leaf_def tid_lock_eq split: if_splits)
  from put_leaf_eq[OF lq ul, of val] assms lq ul show ?thesis by simp
qed

lemma remove_leaf_Ok:
  assumes "remove_leaf s q = Ok s'"
  shows "\<exists>lq. store s q = Some (VValue lq) \<and> \<not> is_locked (vv_version lq) \<and>
           s' = s\<lparr>store := (store s)(q \<mapsto> VValue (lq\<lparr>vv_version := remove_version (vv_version lq)\<rparr>))\<rparr>"
proof -
  from assms obtain lq where lq: "store s q = Some (VValue lq)"
    by (auto simp: remove_leaf_def split: option.splits obj.splits)
  then have ul: "\<not> is_locked (vv_version lq)"
    using assms by (auto simp: remove_leaf_def tid_lock_eq split: if_splits)
  from remove_leaf_eq[OF lq ul] assms lq ul show ?thesis by simp
qed

lemma get_value_loop_set_leaf:
  assumes "store s p = Some (VValue l)"
  shows "get_value_loop (s\<lparr>store := (store s)(p \<mapsto> VValue l')\<rparr>) cur ts = get_value_loop s cur ts"
proof (induction ts arbitrary: cur)
  case Nil
  then show ?case by simp
next
  case (Cons t ts)
  then show ?case using assms by (cases "cur = p") (simp_all split: option.splits obj.splits)
qed

lemma get_value_set_leaf:
  assumes "store s p = Some (VValue l)"
  shows "get_value (s\<lparr>store := (store s)(p \<mapsto> VValue l')\<rparr>) key = get_value s key"
  unfolding get_value_def by (rule get_value_loop_set_leaf[OF assms])

lemma typed_set_leaf:
  assumes "store s p = Some (VValue l)"
  shows "typed lv (s\<lparr>store := (store s)(p \<mapsto> VValue l')\<rparr>) d c = typed lv s d c"
  using assms by (auto simp: typed_def)

lemma wf_levels_set_leaf:
  assumes "wf_levels lv s" and "store s p = Some (VValue l)"
  shows "wf_levels lv (s\<lparr>store := (store s)(p \<mapsto> VValue l')\<rparr>)"
proof -
  let ?s = "s\<lparr>store := (store s)(p \<mapsto> VValue l')\<rparr>"
  have "store s q = Some (TreeNode n)" if "store ?s q = Some (TreeNode n)" for q n
    using that by (simp split: if_splits)
  moreover have "q < next_addr ?s" if "store ?s q \<noteq> None" for q
    using that assms by (cases "q = p") (auto simp: wf_levels_def)
  ultimately show ?thesis
    using assms(1) unfolding wf_levels_def typed_set_leaf[OF assms(2)] by blast
qed

lemma wf_set_leaf:
  assumes "well_formed s" and "store s p = Some (VValue l)"
  shows "well_formed (s\<lparr>store := (store s)(p \<mapsto> VValue l')\<rparr>)"
  using assms wf_levels_set_leaf unfolding well_formed_def by blast

lemma quiescent_set_leaf:
  assumes "quiescent s" and "\<not> is_locked (vv_version l')"
  shows "quiescent (s\<lparr>store := (store s)(p \<mapsto> VValue l')\<rparr>)"
  using assms unfolding quiescent_def by auto

lemma get_leaf:
  assumes "get_value s key = Ok (True, p)" and "store s p = Some (VValue l)"
  shows "get s key x = (if is_valid (vv_version l) then Ok (True, vv_value l) else Ok (False, x))"
  using assms by (simp add: get_def run_atomic_read is_valid_def)

lemma get_absent:
  assumes "get_value s key = Ok (False, n)"
  shows "get s key x = Ok (False, x)"
  using assms by (simp add: get_def)

lemma get_set_leaf_invalid:
  assumes "store s p = Some (VValue l)" and "\<not> is_valid (vv_version l)"
    and "\<not> is_valid (vv_version l')"
  shows "get (s\<lparr>store := (store s)(p \<mapsto> VValue l')\<rparr>) k x = get s k x"
proof -
  let ?s' = "s\<lparr>store := (store s)(p \<mapsto> VValue l')\<rparr>"
  have gv: "get_value ?s' k = get_value s k" by (rule get_value_set_leaf[OF assms(1)])
  show ?thesis
  proof (cases "get_value s k")
    case (Ok bq)
    obtain b q where bq: "bq = (b, q)" by (cases bq)
    show ?thesis
    proof (cases "b \<and> q = p")
      case True
      then show ?thesis using Ok bq gv assms
        by (simp add: get_def is_valid_def)
    next
      case False
      then show ?thesis using Ok bq gv
        by (auto simp: get_def atomic_read_eq split: option.splits obj.splits)
    qed
  qed (simp_all add: get_def gv rbind_def)
qed

section \<open>The operations put, get and remove\<close>

lemma put_wf:
  assumes "well_formed s" and "quiescent s"
  shows "\<exists>s1 p l. insert_nodes V s key = Ok (s1, p) \<and> store s1 p = Some (VValue l) \<and>
           get_value s1 key = Ok (True, p) \<and> heap_le s s1 \<and> well_formed s1 \<and> quiescent s1 \<and>
           put V s key val =
             Ok (s1\<lparr>store := (store s1)(p \<mapsto> VValue \<lparr>vv_version = put_version (vv_version l), vv_value = val\<rparr>)\<rparr>)"
proof -
  from insert_nodes_wf[OF assms, of V key]
  obtain s1 p l where r: "insert_nodes V s key = Ok (s1, p)" "well_formed s1" "quiescent s1" "heap_le s s1"
    "get_value s1 key = Ok (True, p)" "store s1 p = Some (VValue l)"
    by blast
  have "\<not> is_locked (vv_version l)" using r(3,6) by (auto simp: quiescent_def)
  then show ?thesis using r by (simp add: put_def put_leaf_eq)
qed

lemma put_ok:
  assumes "well_formed s" and "quiescent s"
  shows "\<exists>s' p. put V s key val = Ok s' \<and> well_formed s' \<and> quiescent s' \<and>
           get_value s' key = Ok (True, p) \<and>
           (\<exists>v. store s' p = Some (VValue \<lparr>vv_version = put_version v, vv_value = val\<rparr>))"
proof -
  from put_wf[OF assms, of V key val]
  obtain s1 p l where r: "store s1 p = Some (VValue l)" "get_value s1 key = Ok (True, p)"
    "well_formed s1" "quiescent s1"
    "put V s key val =
       Ok (s1\<lparr>store := (store s1)(p \<mapsto> VValue \<lparr>vv_version = put_version (vv_version l), vv_value = val\<rparr>)\<rparr>)"
    by blast
  let ?l' = "\<lparr>vv_version = put_version (vv_version l), vv_value = val\<rparr>"
  let ?s' = "s1\<lparr>store := (store s1)(p \<mapsto> VValue ?l')\<rparr>"
  have "\<not> is_locked (vv_version l)" using r(1,4) by (auto simp: quiescent_def)
  then have "quiescent ?s'" using quiescent_set_leaf[OF r(4), of ?l' p] by simp
  moreover have "well_formed ?s'" by (rule wf_set_leaf[OF r(3,1)])
  moreover have "get_value ?s' key = Ok (True, p)" using r(1,2) by (simp add: get_value_set_leaf)
  ultimately show ?thesis using r(5) by auto
qed

lemma put_RadixTree:
  "\<exists>s p. put V RadixTree key val = Ok s \<and> well_formed s \<and> quiescent s \<and>
         get_value s key = Ok (True, p) \<and>
         store s p = Some (VValue \<lparr>vv_version = 10, vv_value = val\<rparr>)"
proof -
  from insert_nodes_wf[OF wf_RadixTree quiescent_RadixTree, of V key]
  obtain s1 p where r: "insert_nodes V RadixTree key = Ok (s1, p)" "well_formed s1" "quiescent s1"
    "get_value s1 key = Ok (True, p)" "only_bumped V RadixTree s1 root_addr p"
    by (auto simp: get_value_RadixTree)
  let ?l = "\<lparr>vv_version = ver_insert_bit, vv_value = V_init V\<rparr>"
  have l: "store s1 p = Some (VValue ?l)" using r(5) by (simp add: only_bumped_def)
  let ?l' = "\<lparr>vv_version = 10, vv_value = val\<rparr>"
  let ?s = "s1\<lparr>store := (store s1)(p \<mapsto> VValue ?l')\<rparr>"
  have "put V RadixTree key val = Ok ?s"
    using r(1) put_leaf_eq[OF l, of val] by (simp add: put_def put_version_insert_only)
  moreover have "well_formed ?s" by (rule wf_set_leaf[OF r(2) l])
  moreover have "quiescent ?s"
    by (rule quiescent_set_leaf[OF r(3)]) (simp add: is_locked_def lock_bit_def)
  moreover have "get_value ?s key = Ok (True, p)" using r(4) l by (simp add: get_value_set_leaf)
  ultimately show ?thesis by auto
qed

text \<open>
  Claim C2. Non-transactional round trip: on a well-formed tree with no lock held (no
  concurrent writer), \<open>put key val\<close> returns, and \<open>get key\<close> on the resulting tree
  returns true with the value \<open>val\<close>.
\<close>

theorem put_get_round_trip:
  assumes "well_formed s" and "quiescent s"
  shows "\<exists>s'. put V s key val = Ok s' \<and> get s' key x = Ok (True, val)"
proof -
  from put_wf[OF assms, of V key val]
  obtain s1 p l where r: "store s1 p = Some (VValue l)" "get_value s1 key = Ok (True, p)"
    "put V s key val =
       Ok (s1\<lparr>store := (store s1)(p \<mapsto> VValue \<lparr>vv_version = put_version (vv_version l), vv_value = val\<rparr>)\<rparr>)"
    by blast
  let ?s' = "s1\<lparr>store := (store s1)(p \<mapsto> VValue \<lparr>vv_version = put_version (vv_version l), vv_value = val\<rparr>)\<rparr>"
  have "get_value ?s' key = Ok (True, p)" using r(1,2) by (simp add: get_value_set_leaf)
  then have "get ?s' key x = Ok (True, val)"
    by (simp add: get_leaf[where l = "\<lparr>vv_version = put_version (vv_version l), vv_value = val\<rparr>"])
  then show ?thesis using r(3) by simp
qed

theorem put_get_round_trip_witness:
  "\<exists>s'. put \<lparr>V_init = 0, V_of_bool = of_bool\<rparr> RadixTree 0xAAAA (7 :: nat) = Ok s' \<and>
        get s' 0xAAAA 0 = Ok (True, 7)"
  by (rule put_get_round_trip[OF wf_RadixTree quiescent_RadixTree])

lemma remove_absent:
  "get_value s key = Ok (False, n) \<Longrightarrow> remove s key = Ok s"
  by (simp add: remove_def)

lemma remove_present:
  assumes "get_value s key = Ok (True, p)" and "store s p = Some (VValue l)"
    and "\<not> is_locked (vv_version l)"
  shows "remove s key = Ok (s\<lparr>store := (store s)(p \<mapsto> VValue (l\<lparr>vv_version := remove_version (vv_version l)\<rparr>))\<rparr>)"
  using assms by (simp add: remove_def remove_leaf_eq)

lemma remove_ok:
  assumes "well_formed s" and "quiescent s"
  shows "\<exists>s'. remove s key = Ok s' \<and> well_formed s' \<and> quiescent s'"
proof -
  from get_value_wf[OF assms(1), of key]
  consider (leaf) p l where "get_value s key = Ok (True, p)" "store s p = Some (VValue l)"
    | (absent) n where "get_value s key = Ok (False, n)"
    by blast
  then show ?thesis
  proof cases
    case absent
    then show ?thesis using assms by (simp add: remove_absent)
  next
    case leaf
    have ul: "\<not> is_locked (vv_version l)" using leaf(2) assms(2) by (auto simp: quiescent_def)
    let ?l1 = "l\<lparr>vv_version := remove_version (vv_version l)\<rparr>"
    have "quiescent (s\<lparr>store := (store s)(p \<mapsto> VValue ?l1)\<rparr>)"
      by (rule quiescent_set_leaf[OF assms(2)]) (simp add: ul)
    then show ?thesis
      using remove_present[OF leaf ul] wf_set_leaf[OF assms(1) leaf(2), of ?l1] by simp
  qed
qed

text \<open>
  Claim C9. Remove idempotence: on a well-formed tree with no lock held, \<open>remove key\<close>
  twice does what \<open>remove key\<close> once does, as far as it can be observed: after one and
  after two, \<open>get key\<close> returns false, \<open>get\<close> returns the same on every key, and the set
  of allocated objects is the one before (nothing is reclaimed). The second \<open>remove\<close>
  changes nothing at all when the key has no leaf, and otherwise only adds the increment to
  the version of the leaf once more.
\<close>

theorem remove_idempotent:
  assumes "well_formed s" and "quiescent s"
  shows "\<exists>s1 s2. remove s key = Ok s1 \<and> remove s1 key = Ok s2 \<and>
           get s1 key x = Ok (False, x) \<and> get s2 key x = Ok (False, x) \<and>
           (\<forall>k y. get s2 k y = get s1 k y) \<and>
           dom (store s1) = dom (store s) \<and> dom (store s2) = dom (store s) \<and>
           next_addr s1 = next_addr s \<and> next_addr s2 = next_addr s \<and>
           (s2 = s1 \<or>
            (\<exists>p l. store s1 p = Some (VValue l) \<and>
               s2 = s1\<lparr>store := (store s1)(p \<mapsto> VValue (l\<lparr>vv_version := vv_version l + increment_value\<rparr>))\<rparr>))"
proof -
  from get_value_wf[OF assms(1), of key]
  consider (leaf) p l where "get_value s key = Ok (True, p)" "store s p = Some (VValue l)"
    | (absent) n where "get_value s key = Ok (False, n)"
    by blast
  then show ?thesis
  proof cases
    case absent
    then show ?thesis by (simp add: remove_absent get_absent)
  next
    case leaf
    have ul: "\<not> is_locked (vv_version l)" using leaf(2) assms(2) by (auto simp: quiescent_def)
    let ?l1 = "l\<lparr>vv_version := remove_version (vv_version l)\<rparr>"
    let ?s1 = "s\<lparr>store := (store s)(p \<mapsto> VValue ?l1)\<rparr>"
    let ?l2 = "?l1\<lparr>vv_version := remove_version (vv_version ?l1)\<rparr>"
    let ?s2 = "?s1\<lparr>store := (store ?s1)(p \<mapsto> VValue ?l2)\<rparr>"
    have r1: "remove s key = Ok ?s1" by (rule remove_present[OF leaf ul])
    have g1: "get_value ?s1 key = Ok (True, p)" using leaf by (simp add: get_value_set_leaf)
    have p1: "store ?s1 p = Some (VValue ?l1)" by simp
    have "\<not> is_locked (vv_version ?l1)" using ul by simp
    from remove_present[OF g1 p1 this]
    have r2: "remove ?s1 key = Ok ?s2" .
    have g2: "get_value ?s2 key = Ok (True, p)" using leaf by (simp add: get_value_set_leaf)
    have a1: "get ?s1 key x = Ok (False, x)" using get_leaf[OF g1 p1] by simp
    have a2: "get ?s2 key x = Ok (False, x)" using get_leaf[OF g2, of ?l2] by simp
    have same: "get ?s2 k y = get ?s1 k y" for k y
      by (rule get_set_leaf_invalid[OF p1]) simp_all
    have d: "dom (store ?s1) = dom (store s)" "dom (store ?s2) = dom (store s)"
      using leaf(2) by auto
    have diff: "\<exists>q lq. store ?s1 q = Some (VValue lq) \<and>
               ?s2 = ?s1\<lparr>store := (store ?s1)(q \<mapsto> VValue (lq\<lparr>vv_version := vv_version lq + increment_value\<rparr>))\<rparr>"
      by (intro exI[of _ p] exI[of _ ?l1]) (simp add: remove_version_twice)
    show ?thesis using r1 r2 a1 a2 same d diff by (intro exI[of _ ?s1] exI[of _ ?s2]) simp
  qed
qed

theorem remove_idempotent_witness:
  "\<exists>s s1 s2. put V_nat RadixTree 5 7 = Ok s \<and> get s 5 0 = Ok (True, 7) \<and>
      remove s 5 = Ok s1 \<and> remove s1 5 = Ok s2 \<and>
      get s1 5 0 = Ok (False, 0) \<and> get s2 5 0 = Ok (False, 0) \<and>
      dom (store s1) = dom (store s) \<and> dom (store s2) = dom (store s)"
proof -
  from put_ok[OF wf_RadixTree quiescent_RadixTree, of V_nat 5 7]
  obtain s p v where r: "put V_nat RadixTree 5 7 = Ok s" "well_formed s" "quiescent s"
    "get_value s 5 = Ok (True, p)"
    "store s p = Some (VValue \<lparr>vv_version = put_version v, vv_value = 7\<rparr>)"
    by blast
  have "get s 5 0 = Ok (True, 7)" using get_leaf[OF r(4,5)] by simp
  with r(1) remove_idempotent[OF r(2,3), of 5 0] show ?thesis by blast
qed

section \<open>Reads and writes of a transaction\<close>

lemma item_key_Sto_item [simp]: "item_key (Sto_item txn k) = k"
  by (simp add: Sto_item_def split: option.splits)

lemma item_key_add [simp]:
  "item_key (add_read it v) = item_key it"
  "item_key (add_write it w) = item_key it"
  "item_key (add_flags it m) = item_key it"
  by (simp_all add: add_read_def add_write_def add_flags_def)

lemma Sto_item_upd [simp]: "item_key it = p \<Longrightarrow> Sto_item (txn(p \<mapsto> it)) p = it"
  by (auto simp: Sto_item_def)

lemma trans_put_wf:
  assumes "well_formed s" and "quiescent s"
  shows "\<exists>s1 p l. insert_nodes V s key = Ok (s1, p) \<and> store s1 p = Some (VValue l) \<and>
           get_value s1 key = Ok (True, p) \<and> heap_le s s1 \<and> well_formed s1 \<and> quiescent s1 \<and>
           trans_put V s txn key val =
             Ok (s1, txn(p \<mapsto> add_flags (add_write (Sto_item txn p) (Packed_value val)) {item_put_bit}))"
proof -
  from insert_nodes_wf[OF assms, of V key]
  obtain s1 p l where r: "insert_nodes V s key = Ok (s1, p)" "well_formed s1" "quiescent s1" "heap_le s s1"
    "get_value s1 key = Ok (True, p)" "store s1 p = Some (VValue l)"
    by blast
  then show ?thesis by (simp add: trans_put_def Let_def)
qed

text \<open>
  Claim C3. A transaction observes its own write: on a well-formed tree with no lock held,
  \<open>trans_put key val\<close> returns, and \<open>trans_get key\<close> in the same transaction then returns
  true with the staged value \<open>val\<close> (and leaves the transaction as it is).
\<close>

theorem trans_put_trans_get:
  assumes "well_formed s" and "quiescent s"
  shows "\<exists>s1 txn1. trans_put V s txn key val = Ok (s1, txn1) \<and>
           trans_get V s1 txn1 key x = Ok (txn1, True, val)"
proof -
  from trans_put_wf[OF assms, of V key txn val]
  obtain s1 p where r: "get_value s1 key = Ok (True, p)"
    "trans_put V s txn key val =
       Ok (s1, txn(p \<mapsto> add_flags (add_write (Sto_item txn p) (Packed_value val)) {item_put_bit}))"
    by blast
  let ?txn1 = "txn(p \<mapsto> add_flags (add_write (Sto_item txn p) (Packed_value val)) {item_put_bit})"
  have "trans_get V s1 ?txn1 key x = Ok (?txn1, True, val)"
    using r(1) by (simp add: trans_get_def trans_get_at_def write_value_def Let_def add_write_def add_flags_def)
  then show ?thesis using r(2) by simp
qed

theorem trans_put_trans_get_witness:
  "\<exists>s1 txn1. trans_put \<lparr>V_init = 0, V_of_bool = of_bool\<rparr> RadixTree Map.empty 0x10 (97 :: nat) = Ok (s1, txn1) \<and>
      trans_get \<lparr>V_init = 0, V_of_bool = of_bool\<rparr> s1 txn1 0x10 0 = Ok (txn1, True, 97)"
  by (rule trans_put_trans_get[OF wf_RadixTree quiescent_RadixTree])

text \<open>
  Claim C10. For a key whose leaf exists, \<open>trans_remove key\<close> followed by
  \<open>trans_get key\<close> in the same transaction returns true, not false: \<open>trans_get\<close> finds the
  staged write of the item and returns it as the payload, here the \<^verbatim>\<open>bool\<close> staged by
  \<open>trans_remove\<close> read as a \<^verbatim>\<open>V\<close>.
\<close>

theorem trans_remove_trans_get:
  assumes "get_value s key = Ok (True, p)"
  shows "\<exists>txn1 item. trans_remove s txn key = Ok txn1 \<and> txn1 p = Some item \<and>
           item_remove_bit \<in> item_flags item \<and> wdata item = Some (Packed_bool True) \<and>
           trans_get V s txn1 key x = Ok (txn1, True, V_of_bool V True)"
  using assms
  by (simp add: trans_remove_def trans_remove_at_def trans_get_def trans_get_at_def add_write_def add_flags_def
      write_value_def Let_def)

theorem trans_remove_trans_get_witness:
  "\<exists>s p txn1 item.
      put \<lparr>V_init = 0, V_of_bool = of_bool\<rparr> RadixTree 5 (7 :: nat) = Ok s \<and>
      get_value s 5 = Ok (True, p) \<and>
      trans_remove s Map.empty 5 = Ok txn1 \<and> txn1 p = Some item \<and>
      item_remove_bit \<in> item_flags item \<and> wdata item = Some (Packed_bool True) \<and>
      trans_get \<lparr>V_init = 0, V_of_bool = of_bool\<rparr> s txn1 5 0 = Ok (txn1, True, 1)"
proof -
  from put_ok[OF wf_RadixTree quiescent_RadixTree, of "\<lparr>V_init = 0, V_of_bool = of_bool\<rparr>" 5 "7 :: nat"]
  obtain s p where r: "put \<lparr>V_init = 0, V_of_bool = of_bool\<rparr> RadixTree 5 (7 :: nat) = Ok s"
    "get_value s 5 = Ok (True, p)"
    by blast
  from trans_remove_trans_get[OF r(2), of Map.empty "\<lparr>V_init = 0, V_of_bool = of_bool\<rparr>" 0] r
  show ?thesis by auto
qed




text \<open>
  While no other thread writes to the tree the two reads of the version see the same
  leaf, and the version that is tested is the version of the snapshot.
\<close>

lemma trans_get_quiet_read_validation:
  assumes "get_value s key = Ok (True, p)" and "store s p = Some (VValue l)"
    and "\<not> has_write (Sto_item txn p)"
  shows "trans_get V s txn key x =
     (if \<exists>r. rdata (Sto_item txn p) = Some r \<and> \<not> same_version r (vv_version l) then Abort
      else Ok (txn(p \<mapsto> add_read (Sto_item txn p) (vv_version l)),
               vv_version l AND valid_bit \<noteq> 0, vv_value l))"
  using assms
  by (auto simp: trans_get_def trans_get_at_def has_write_def run_atomic_read Let_def
      split: option.splits)

lemma read_absent_eq:
  assumes "store s n = Some (TreeNode nd)"
  shows "read_absent s txn n =
     Ok (txn(n \<mapsto> add_flags (add_read (Sto_item txn n) (version nd)) {item_empty_bit}))"
  using assms by (simp add: read_absent_def Let_def)

lemma trans_get_absent:
  assumes "get_value s key = Ok (False, n)" and "store s n = Some (TreeNode nd)"
  shows "trans_get V s txn key x =
     Ok (txn(n \<mapsto> add_flags (add_read (Sto_item txn n) (version nd)) {item_empty_bit}), False, x)"
  using assms by (simp add: trans_get_def trans_get_at_def read_absent_eq)

lemma trans_remove_absent:
  assumes "get_value s key = Ok (False, n)" and "store s n = Some (TreeNode nd)"
  shows "trans_remove s txn key =
     Ok (txn(n \<mapsto> add_flags (add_read (Sto_item txn n) (version nd)) {item_empty_bit}))"
  using assms by (simp add: trans_remove_def trans_remove_at_def read_absent_eq)

section \<open>The commit callbacks\<close>

lemma install_put_eq:
  assumes "store s (item_key it) = Some (VValue l)"
    and "item_put_bit \<in> item_flags it" and "wdata it = Some w"
  shows "install V s it =
     Ok (s\<lparr>store := (store s)(item_key it \<mapsto>
           VValue \<lparr>vv_version = put_version (vv_version l), vv_value = write_value V w\<rparr>)\<rparr>)"
  using assms by (cases l) (simp add: install_def set_version_def put_version_def Let_def)

lemma install_remove_eq:
  assumes "store s (item_key it) = Some (VValue l)"
    and "item_put_bit \<notin> item_flags it" and "item_remove_bit \<in> item_flags it"
  shows "install V s it =
     Ok (s\<lparr>store := (store s)(item_key it \<mapsto>
           VValue (l\<lparr>vv_version := remove_version (vv_version l)\<rparr>))\<rparr>)"
  using assms by (simp add: install_def set_version_def remove_version_def Let_def and.assoc)

lemma install_plain_eq:
  assumes "store s (item_key it) = Some (VValue l)"
    and "item_put_bit \<notin> item_flags it" and "item_remove_bit \<notin> item_flags it"
  shows "install V s it =
     Ok (s\<lparr>store := (store s)(item_key it \<mapsto>
           VValue (l\<lparr>vv_version := vv_version l + increment_value\<rparr>))\<rparr>)"
  using assms by (simp add: install_def set_version_def Let_def)

lemma install_Ok:
  assumes "install V s it = Ok s'"
  shows "\<exists>lq lq'. store s (item_key it) = Some (VValue lq) \<and>
           s' = s\<lparr>store := (store s)(item_key it \<mapsto> VValue lq')\<rparr> \<and>
           drop_bit 3 (vv_version lq') = drop_bit 3 (vv_version lq + increment_value)"
proof -
  from assms obtain lq where lq: "store s (item_key it) = Some (VValue lq)"
    by (auto simp: install_def split: option.splits obj.splits)
  show ?thesis
  proof (cases "item_put_bit \<in> item_flags it")
    case True
    then obtain w where w: "wdata it = Some w"
      using assms lq by (cases "wdata it") (auto simp: install_def Let_def)
    from install_put_eq[OF lq True w, of V] assms lq show ?thesis
      by (auto simp: drop_bit_put_version)
  next
    case False
    show ?thesis
    proof (cases "item_remove_bit \<in> item_flags it")
      case True
      from install_remove_eq[OF lq False True, of V] assms lq show ?thesis
        by (auto simp: drop_bit_remove_version)
    next
      case nr: False
      from install_plain_eq[OF lq False nr, of V] assms lq show ?thesis
        by auto
    qed
  qed
qed

lemma check_empty_item:
  assumes "store s n = Some (TreeNode nd)"
  shows "check s (add_flags (add_read (Sto_item txn n) v) {item_empty_bit})
         = Ok (same_version (version nd) v)"
  using assms by (simp add: check_def add_flags_def add_read_def)

lemma commit_put_eq:
  assumes "store s p = Some (VValue l)" and "\<not> is_locked (vv_version l)"
    and "item_key it = p" and "item_put_bit \<in> item_flags it" and "wdata it = Some w"
  shows "commit_write_item V s it =
     Ok (s\<lparr>store := (store s)(p \<mapsto> VValue \<lparr>vv_version = put_version (vv_version l),
                                              vv_value = write_value V w\<rparr>)\<rparr>)"
  using assms
  by (cases l)
     (simp add: commit_write_item_def lock_def install_def unlock_def tid_lock_eq set_version_def
        unlock_put_version Let_def)

text \<open>
  An item with both flags is what \<open>trans_put\<close> followed by \<open>trans_remove\<close> of the same key
  leaves in a transaction; its write slot then holds the \<^verbatim>\<open>bool\<close> of \<open>trans_remove\<close>. The
  commit installs it as a put, and the key is present afterwards, with that \<^verbatim>\<open>bool\<close> read
  as a payload.
\<close>

lemma trans_put_trans_remove_commit:
  assumes "well_formed s" and "quiescent s"
  shows "\<exists>s1 txn1 txn2 p it s2.
           trans_put V s txn key val = Ok (s1, txn1) \<and> trans_remove s1 txn1 key = Ok txn2 \<and>
           txn2 p = Some it \<and> item_key it = p \<and>
           item_put_bit \<in> item_flags it \<and> item_remove_bit \<in> item_flags it \<and>
           wdata it = Some (Packed_bool True) \<and>
           commit_write_item V s1 it = Ok s2 \<and> get s2 key x = Ok (True, V_of_bool V True)"
proof -
  from trans_put_wf[OF assms, of V key txn val]
  obtain s1 p l where r: "store s1 p = Some (VValue l)" "get_value s1 key = Ok (True, p)"
    "quiescent s1"
    "trans_put V s txn key val =
       Ok (s1, txn(p \<mapsto> add_flags (add_write (Sto_item txn p) (Packed_value val)) {item_put_bit}))"
    by blast
  let ?it1 = "add_flags (add_write (Sto_item txn p) (Packed_value val)) {item_put_bit}"
  let ?txn1 = "txn(p \<mapsto> ?it1)"
  let ?it = "add_flags (add_write ?it1 (Packed_bool True)) {item_remove_bit}"
  have rm: "trans_remove s1 ?txn1 key = Ok (?txn1(p \<mapsto> ?it))"
    using r(2) by (simp add: trans_remove_def trans_remove_at_def Let_def)
  have ul: "\<not> is_locked (vv_version l)" using r(1,3) by (auto simp: quiescent_def)
  let ?l2 = "\<lparr>vv_version = put_version (vv_version l), vv_value = V_of_bool V True\<rparr>"
  let ?s2 = "s1\<lparr>store := (store s1)(p \<mapsto> VValue ?l2)\<rparr>"
  have commit: "commit_write_item V s1 ?it = Ok ?s2"
    using commit_put_eq[OF r(1) ul, of ?it "Packed_bool True" V]
    by (simp add: add_flags_def add_write_def write_value_def)
  have "get_value ?s2 key = Ok (True, p)" using r(1,2) by (simp add: get_value_set_leaf)
  then have g: "get ?s2 key x = Ok (True, V_of_bool V True)"
    by (simp add: get_leaf[where l = ?l2])
  have fl: "item_key ?it = p" "item_put_bit \<in> item_flags ?it" "item_remove_bit \<in> item_flags ?it"
    "wdata ?it = Some (Packed_bool True)"
    by (simp_all add: add_flags_def add_write_def)
  show ?thesis
    using r(4) rm fl commit g
    by (intro exI[of _ s1] exI[of _ ?txn1] exI[of _ "?txn1(p \<mapsto> ?it)"] exI[of _ p] exI[of _ ?it]
        exI[of _ ?s2]) simp
qed

text \<open>
  The guard of an absent read, when the read is over before the insert begins. Let the
  key be absent: the descent stops at the interior node \<open>n\<close>. A transaction \<open>T\<close> that runs
  \<open>trans_get\<close> (which returns false) or \<open>trans_remove\<close> on the key, with no other thread
  writing during the call, holds afterwards an item on \<open>n\<close>, flagged \<^verbatim>\<open>item_empty_bit\<close>,
  whose check succeeds as long as nothing happens. When another transaction then runs
  \<open>trans_put\<close> on the key (its \<open>insert_nodes\<close> publishes the missing child and bumps the
  version of \<open>n\<close>) and commits (lock, install, unlock of its item, after which \<open>get\<close> finds
  the value), the check of that item of \<open>T\<close> returns false.
\<close>

lemma absent_read_before_insert_detected:
  assumes "well_formed s" and "quiescent s" and "get_value s key = Ok (False, n)"
    and "trans_get V s txnT key x = Ok (txnT', b, x') \<or> trans_remove s txnT key = Ok txnT'"
  shows "\<exists>itemT s1 txnU' p itemU s2.
           txnT' n = Some itemT \<and> item_key itemT = n \<and> item_empty_bit \<in> item_flags itemT \<and>
           (\<exists>nd. store s n = Some (TreeNode nd) \<and> rdata itemT = Some (version nd)) \<and>
           check s itemT = Ok True \<and>
           trans_put V s txnU key val = Ok (s1, txnU') \<and> get_value s1 key = Ok (True, p) \<and>
           txnU' p = Some itemU \<and> commit_write_item V s1 itemU = Ok s2 \<and>
           get s2 key y = Ok (True, val) \<and>
           check s2 itemT = Ok False"
proof -
  from get_value_wf[OF assms(1), of key] assms(3)
  obtain nd where nd: "store s n = Some (TreeNode nd)" by auto
  let ?itemT = "add_flags (add_read (Sto_item txnT n) (version nd)) {item_empty_bit}"
  have T: "txnT' = txnT(n \<mapsto> ?itemT)"
    using assms(4) trans_get_absent[OF assms(3) nd, of V txnT x] trans_remove_absent[OF assms(3) nd, of txnT]
    by auto
  from trans_put_wf[OF assms(1,2), of V key txnU val]
  obtain s1 p l where r: "insert_nodes V s key = Ok (s1, p)" "store s1 p = Some (VValue l)"
    "get_value s1 key = Ok (True, p)" "quiescent s1"
    "trans_put V s txnU key val =
       Ok (s1, txnU(p \<mapsto> add_flags (add_write (Sto_item txnU p) (Packed_value val)) {item_put_bit}))"
    by blast
  let ?itemU = "add_flags (add_write (Sto_item txnU p) (Packed_value val)) {item_put_bit}"
  from insert_nodes_wf[OF assms(1,2), of V key] r(1) assms(3)
  have ob: "only_bumped V s s1 n p" by auto
  then obtain nd' where nd': "store s1 n = Some (TreeNode nd')"
    "version nd' = version nd + increment_value" and np: "n \<noteq> p"
    using nd assms(1) unfolding only_bumped_def well_formed_def wf_levels_def by fastforce
  have ul: "\<not> is_locked (vv_version l)" using r(2,4) by (auto simp: quiescent_def)
  let ?l2 = "\<lparr>vv_version = put_version (vv_version l), vv_value = val\<rparr>"
  let ?s2 = "s1\<lparr>store := (store s1)(p \<mapsto> VValue ?l2)\<rparr>"
  have commit: "commit_write_item V s1 ?itemU = Ok ?s2"
    using commit_put_eq[OF r(2) ul, of ?itemU "Packed_value val" V]
    by (simp add: add_flags_def add_write_def write_value_def)
  have "get_value ?s2 key = Ok (True, p)" using r(2,3) by (simp add: get_value_set_leaf)
  then have g: "get ?s2 key y = Ok (True, val)"
    by (simp add: get_leaf[where l = ?l2])
  have "store ?s2 n = Some (TreeNode nd')" using nd' np by simp
  then have c2: "check ?s2 ?itemT = Ok False"
    using nd'(2) by (simp add: check_empty_item not_same_version_bump)
  have c0: "check s ?itemT = Ok True" using nd by (simp add: check_empty_item)
  have fl: "item_key ?itemT = n" "item_empty_bit \<in> item_flags ?itemT"
    "\<exists>nd. store s n = Some (TreeNode nd) \<and> rdata ?itemT = Some (version nd)"
    using nd by (simp_all add: add_flags_def add_read_def)
  show ?thesis
    using T fl c0 r(5) r(3) commit g c2 by (intro exI[of _ ?itemT] exI[of _ s1] exI[of _ p] exI[of _ ?itemU] exI[of _ ?s2] exI) auto
qed

text \<open>
  The same insert, falling between the two reads of the absent branch. \<open>T\<close> has made its
  descent on \<open>s\<close> and found the slot of \<open>n\<close> empty; the other transaction runs \<open>trans_put\<close>
  and commits, which gives \<open>s2\<close>; \<open>T\<close> then reads \<^verbatim>\<open>node->version\<close> from \<open>s2\<close> and records
  it. The recorded version is already the bumped one, so the check of \<open>T\<close> on \<open>s2\<close>
  succeeds, although \<open>T\<close> has seen the key absent and \<open>get\<close> on \<open>s2\<close> finds it.
\<close>

lemma absent_read_during_insert_undetected:
  assumes "well_formed s" and "quiescent s" and "get_value s key = Ok (False, n)"
  shows "\<exists>s1 txnU' p itemU s2 txnT' itemT.
           trans_put V s txnU key val = Ok (s1, txnU') \<and> get_value s1 key = Ok (True, p) \<and>
           txnU' p = Some itemU \<and> commit_write_item V s1 itemU = Ok s2 \<and>
           get s2 key y = Ok (True, val) \<and>
           trans_get_at V s s2 s2 txnT key x = Ok (txnT', False, x) \<and>
           trans_remove_at s s2 txnT key = Ok txnT' \<and>
           txnT' n = Some itemT \<and> item_key itemT = n \<and> item_empty_bit \<in> item_flags itemT \<and>
           check s2 itemT = Ok True"
proof -
  from get_value_wf[OF assms(1), of key] assms(3)
  obtain nd where nd: "store s n = Some (TreeNode nd)" by auto
  from trans_put_wf[OF assms(1,2), of V key txnU val]
  obtain s1 p l where r: "insert_nodes V s key = Ok (s1, p)" "store s1 p = Some (VValue l)"
    "get_value s1 key = Ok (True, p)" "quiescent s1"
    "trans_put V s txnU key val =
       Ok (s1, txnU(p \<mapsto> add_flags (add_write (Sto_item txnU p) (Packed_value val)) {item_put_bit}))"
    by blast
  let ?itemU = "add_flags (add_write (Sto_item txnU p) (Packed_value val)) {item_put_bit}"
  from insert_nodes_wf[OF assms(1,2), of V key] r(1) assms(3)
  have ob: "only_bumped V s s1 n p" by auto
  then obtain nd' where nd': "store s1 n = Some (TreeNode nd')" and np: "n \<noteq> p"
    using nd assms(1) unfolding only_bumped_def well_formed_def wf_levels_def by fastforce
  have ul: "\<not> is_locked (vv_version l)" using r(2,4) by (auto simp: quiescent_def)
  let ?l2 = "\<lparr>vv_version = put_version (vv_version l), vv_value = val\<rparr>"
  let ?s2 = "s1\<lparr>store := (store s1)(p \<mapsto> VValue ?l2)\<rparr>"
  have commit: "commit_write_item V s1 ?itemU = Ok ?s2"
    using commit_put_eq[OF r(2) ul, of ?itemU "Packed_value val" V]
    by (simp add: add_flags_def add_write_def write_value_def)
  have "get_value ?s2 key = Ok (True, p)" using r(2,3) by (simp add: get_value_set_leaf)
  then have g: "get ?s2 key y = Ok (True, val)"
    by (simp add: get_leaf[where l = ?l2])
  have n2: "store ?s2 n = Some (TreeNode nd')" using nd' np by simp
  let ?itemT = "add_flags (add_read (Sto_item txnT n) (version nd')) {item_empty_bit}"
  have tg: "trans_get_at V s ?s2 ?s2 txnT key x = Ok (txnT(n \<mapsto> ?itemT), False, x)"
    using assms(3) by (simp add: trans_get_at_def read_absent_eq[OF n2])
  have tr: "trans_remove_at s ?s2 txnT key = Ok (txnT(n \<mapsto> ?itemT))"
    using assms(3) by (simp add: trans_remove_at_def read_absent_eq[OF n2])
  have c2: "check ?s2 ?itemT = Ok True"
    by (simp add: check_empty_item[OF n2])
  have fl: "item_key ?itemT = n" "item_empty_bit \<in> item_flags ?itemT"
    by (simp_all add: add_flags_def add_read_def)
  show ?thesis
    apply (rule exI[of _ s1], rule exI[of _ "txnU(p \<mapsto> ?itemU)"], rule exI[of _ p],
        rule exI[of _ ?itemU], rule exI[of _ ?s2], rule exI[of _ "txnT(n \<mapsto> ?itemT)"],
        rule exI[of _ ?itemT])
    using r(5) r(3) commit g tg tr fl c2 apply simp
    done
qed

section \<open>Invariants of the leaves\<close>

lemma leaves_ok_RadixTree: "leaves_ok RadixTree"
  by (simp add: leaves_ok_def RadixTree_def)

lemma leaves_ok_publish:
  assumes "publish s cur t a = Ok s'" and "leaves_ok s"
  shows "leaves_ok s'"
  using assms
  by (auto simp: publish_def leaves_ok_def Let_def split: option.splits obj.splits if_splits)

lemma leaves_ok_insert_step:
  assumes "insert_step V s cur t is_last = Ok s'" and "leaves_ok s"
  shows "leaves_ok s'"
proof -
  have a: "leaves_ok (snd (alloc s ob))" if "case ob of VValue l \<Rightarrow> leaf_bits_ok (vv_version l) | _ \<Rightarrow> True" for ob :: "'a obj"
    using that assms(2) by (auto simp: alloc_def leaves_ok_def split: obj.splits)
  show ?thesis
    using assms(1,2) a[of "VValue \<lparr>vv_version = ver_insert_bit, vv_value = V_init V\<rparr>"]
      a[of "TreeNode (new_tree_node (Some cur) t)"]
    by (auto simp: insert_step_def split: option.splits obj.splits if_splits prod.splits
        dest: leaves_ok_publish)
qed

lemma leaves_ok_insert_nodes_loop:
  assumes "insert_nodes_loop V s cur ts = Ok (s', p)" and "leaves_ok s"
  shows "leaves_ok s'"
  using assms
proof (induction ts arbitrary: s cur)
  case Nil
  then show ?case by simp
next
  case (Cons t ts)
  from Cons.prems(1) obtain s1 c where s1: "insert_step V s cur t (ts = []) = Ok s1"
    and c: "child_of s1 cur t = Ok c" and r: "insert_nodes_loop V s1 c ts = Ok (s', p)"
    by (auto simp: rbind_eq_Ok)
  have "leaves_ok s1" by (rule leaves_ok_insert_step[OF s1 Cons.prems(2)])
  then show ?case using Cons.IH[OF r] by simp
qed

lemma leaves_ok_set_leaf:
  assumes "leaves_ok s" and "leaf_bits_ok (vv_version l')"
  shows "leaves_ok (s\<lparr>store := (store s)(p \<mapsto> VValue l')\<rparr>)"
  using assms by (auto simp: leaves_ok_def)

lemma leaves_ok_put_leaf:
  assumes "put_leaf s p val = Ok s'" and "leaves_ok s"
  shows "leaves_ok s'"
  using assms
  by (auto simp: put_leaf_def tid_lock_eq Let_def intro!: leaves_ok_set_leaf
      split: option.splits obj.splits if_splits)

lemma leaves_ok_remove_leaf:
  assumes "remove_leaf s p = Ok s'" and "leaves_ok s"
  shows "leaves_ok s'"
  using assms
  by (auto simp: remove_leaf_def tid_lock_eq Let_def intro!: leaves_ok_set_leaf
      split: option.splits obj.splits if_splits)

lemma leaves_ok_lock:
  assumes "lock s it = Ok s'" and "leaves_ok s"
  shows "leaves_ok s'"
  using assms
  by (auto simp: lock_def tid_lock_eq leaves_ok_def split: option.splits obj.splits if_splits)

lemma leaves_ok_unlock:
  assumes "unlock s it = Ok s'" and "leaves_ok s"
  shows "leaves_ok s'"
  using assms
  by (auto simp: unlock_def leaves_ok_def split: option.splits obj.splits if_splits)

lemma leaves_ok_install:
  assumes "install V s it = Ok s'" and "leaves_ok s"
  shows "leaves_ok s'"
  using assms
  by (auto simp: install_def set_version_def leaves_ok_def Let_def
      split: option.splits obj.splits if_splits)

lemma reachable_leaves_ok: "reachable V s \<Longrightarrow> leaves_ok s"
proof (induction rule: reachable.induct)
  case reach_init
  show ?case by (rule leaves_ok_RadixTree)
next
  case (reach_insert_nodes s key s' p)
  then show ?case by (auto simp: insert_nodes_def dest: leaves_ok_insert_nodes_loop)
next
  case (reach_put s key val s')
  then show ?case
    by (auto simp: put_def insert_nodes_def rbind_eq_Ok
        dest!: leaves_ok_insert_nodes_loop dest: leaves_ok_put_leaf)
next
  case (reach_remove s key s')
  then show ?case
    by (auto simp: remove_def rbind_eq_Ok split: if_splits dest: leaves_ok_remove_leaf)
next
  case (reach_lock s item s')
  then show ?case by (auto dest: leaves_ok_lock)
next
  case (reach_install s item s')
  then show ?case by (auto dest: leaves_ok_install)
next
  case (reach_unlock s item s')
  then show ?case by (auto dest: leaves_ok_unlock)
qed

lemma lock_Ok:
  assumes "lock s it = Ok s'"
  shows "\<exists>l l'. store s (item_key it) = Some (VValue l) \<and>
           s' = s\<lparr>store := (store s)(item_key it \<mapsto> VValue l')\<rparr>"
  using assms by (auto simp: lock_def split: option.splits obj.splits)

lemma unlock_Ok:
  assumes "unlock s it = Ok s'"
  shows "\<exists>l l'. store s (item_key it) = Some (VValue l) \<and>
           s' = s\<lparr>store := (store s)(item_key it \<mapsto> VValue l')\<rparr>"
  using assms by (auto simp: unlock_def split: option.splits obj.splits)

lemma reachable_wf: "reachable V s \<Longrightarrow> well_formed s"
proof (induction rule: reachable.induct)
  case reach_init
  show ?case by (rule wf_RadixTree)
next
  case (reach_insert_nodes s key s' p)
  then show ?case using insert_nodes_heap_le by blast
next
  case (reach_put s key val s')
  then obtain s1 q where i: "insert_nodes V s key = Ok (s1, q)" and pl: "put_leaf s1 q val = Ok s'"
    by (auto simp: put_def rbind_eq_Ok)
  have "well_formed s1" using insert_nodes_heap_le[OF reach_put.IH i] by simp
  then show ?case using put_leaf_Ok[OF pl] wf_set_leaf by blast
next
  case (reach_remove s key s')
  then obtain b q where r: "(if \<not> b then Ok s else remove_leaf s q) = Ok s'"
    by (auto simp: remove_def rbind_eq_Ok)
  show ?case
  proof (cases b)
    case False
    then show ?thesis using r reach_remove.IH by simp
  next
    case True
    then have "remove_leaf s q = Ok s'" using r by simp
    then show ?thesis using remove_leaf_Ok wf_set_leaf[OF reach_remove.IH] by blast
  qed
next
  case (reach_lock s item s')
  then show ?case using lock_Ok wf_set_leaf by blast
next
  case (reach_install s item s')
  then show ?case using install_Ok wf_set_leaf by blast
next
  case (reach_unlock s item s')
  then show ?case using unlock_Ok wf_set_leaf by blast
qed

text \<open>
  Claim C7. In every heap reachable from the empty tree by any sequence of node
  insertions, \<open>put\<close>, \<open>remove\<close>, \<open>lock\<close>, \<open>install\<close> and \<open>unlock\<close>, no leaf has the insert
  bit and the valid bit set at the same time.
\<close>

theorem leaf_never_insert_and_valid:
  assumes "reachable V s" and "store s p = Some (VValue l)"
  shows "\<not> (vv_version l AND ver_insert_bit \<noteq> 0 \<and> vv_version l AND valid_bit \<noteq> 0)"
  using reachable_leaves_ok[OF assms(1)] assms(2)
  by (auto simp: leaves_ok_def leaf_bits_ok_def is_inserting_def is_valid_def)

theorem leaf_never_insert_and_valid_witness:
  "\<exists>s p l. reachable V_nat s \<and> store s p = Some (VValue l) \<and> vv_version l AND valid_bit \<noteq> 0 \<and>
      \<not> (vv_version l AND ver_insert_bit \<noteq> 0 \<and> vv_version l AND valid_bit \<noteq> 0)"
proof -
  from put_ok[OF wf_RadixTree quiescent_RadixTree, of V_nat 5 7]
  obtain s p v where r: "put V_nat RadixTree 5 7 = Ok s"
    "store s p = Some (VValue \<lparr>vv_version = put_version v, vv_value = 7\<rparr>)"
    by blast
  have re: "reachable V_nat s" by (rule reach_put[OF reach_init r(1)])
  have "put_version v AND valid_bit \<noteq> 0" using put_version_bits(1)[of v] by (simp add: is_valid_def)
  with re r(2) leaf_never_insert_and_valid[OF re r(2)] show ?thesis by fastforce
qed

text \<open>
  Claim C8, as amended. For a leaf whose version word is below \<open>2 ^ 64 - 8\<close>, so that
  adding the increment does not wrap around: after \<open>put\<close> (on a well-formed tree),
  \<open>remove\<close> or \<open>install\<close>, with any arguments, the leaf is still there and its version,
  the lock bit ignored, is not below the one before.
\<close>

theorem leaf_version_monotone:
  assumes "store s p = Some (VValue l)" and "unat (vv_version l) + 8 < 2 ^ 64"
  shows "(well_formed s \<and> put V s key val = Ok s' \<longrightarrow>
            (\<exists>l'. store s' p = Some (VValue l') \<and> tid_unlock (vv_version l) \<le> tid_unlock (vv_version l'))) \<and>
         (remove s key = Ok s' \<longrightarrow>
            (\<exists>l'. store s' p = Some (VValue l') \<and> tid_unlock (vv_version l) \<le> tid_unlock (vv_version l'))) \<and>
         (install V s it = Ok s' \<longrightarrow>
            (\<exists>l'. store s' p = Some (VValue l') \<and> tid_unlock (vv_version l) \<le> tid_unlock (vv_version l')))"
proof (intro conjI impI)
  assume a: "well_formed s \<and> put V s key val = Ok s'"
  then obtain s1 q where i: "insert_nodes V s key = Ok (s1, q)" and pl: "put_leaf s1 q val = Ok s'"
    by (auto simp: put_def rbind_eq_Ok)
  from insert_nodes_heap_le[OF _ i] a have "heap_le s s1" by simp
  then have p1: "store s1 p = Some (VValue l)" using assms(1) by (simp add: heap_le_def)
  from put_leaf_Ok[OF pl] obtain lq where lq: "store s1 q = Some (VValue lq)"
    "s' = s1\<lparr>store := (store s1)(q \<mapsto> VValue \<lparr>vv_version = put_version (vv_version lq), vv_value = val\<rparr>)\<rparr>"
    by blast
  show "\<exists>l'. store s' p = Some (VValue l') \<and> tid_unlock (vv_version l) \<le> tid_unlock (vv_version l')"
  proof (cases "q = p")
    case True
    then show ?thesis
      using lq p1 unlocked_less[OF assms(2) drop_bit_put_version] by (simp add: less_imp_le)
  next
    case False
    then show ?thesis using lq p1 by simp
  qed
next
  assume a: "remove s key = Ok s'"
  then obtain b q where gv: "get_value s key = Ok (b, q)"
    and r: "(if \<not> b then Ok s else remove_leaf s q) = Ok s'"
    by (auto simp: remove_def rbind_eq_Ok)
  show "\<exists>l'. store s' p = Some (VValue l') \<and> tid_unlock (vv_version l) \<le> tid_unlock (vv_version l')"
  proof (cases b)
    case False
    then show ?thesis using r assms(1) by simp
  next
    case True
    then have "remove_leaf s q = Ok s'" using r by simp
    from remove_leaf_Ok[OF this] obtain lq where lq: "store s q = Some (VValue lq)"
      "s' = s\<lparr>store := (store s)(q \<mapsto> VValue (lq\<lparr>vv_version := remove_version (vv_version lq)\<rparr>))\<rparr>"
      by blast
    show ?thesis
    proof (cases "q = p")
      case True
      then show ?thesis
        using lq assms(1) unlocked_less[OF assms(2) drop_bit_remove_version] by (simp add: less_imp_le)
    next
      case False
      then show ?thesis using lq assms(1) by simp
    qed
  qed
next
  assume a: "install V s it = Ok s'"
  from install_Ok[OF a] obtain lq lq' where lq: "store s (item_key it) = Some (VValue lq)"
    "s' = s\<lparr>store := (store s)(item_key it \<mapsto> VValue lq')\<rparr>"
    "drop_bit 3 (vv_version lq') = drop_bit 3 (vv_version lq + increment_value)"
    by blast
  show "\<exists>l'. store s' p = Some (VValue l') \<and> tid_unlock (vv_version l) \<le> tid_unlock (vv_version l')"
  proof (cases "item_key it = p")
    case True
    then have "lq = l" using lq(1) assms(1) by simp
    then show ?thesis
      using True lq unlocked_less[OF assms(2), of "vv_version lq'"] by (simp add: less_imp_le)
  next
    case False
    then show ?thesis using lq assms(1) by simp
  qed
qed

theorem leaf_version_monotone_witness:
  "\<exists>s p s1 s2 s3 l1 l2 l3.
      put V_nat RadixTree 5 7 = Ok s \<and>
      store s p = Some (VValue \<lparr>vv_version = 10, vv_value = 7\<rparr>) \<and>
      put V_nat s 5 8 = Ok s1 \<and> store s1 p = Some (VValue l1) \<and>
      tid_unlock 10 \<le> tid_unlock (vv_version l1) \<and>
      remove s 5 = Ok s2 \<and> store s2 p = Some (VValue l2) \<and>
      tid_unlock 10 \<le> tid_unlock (vv_version l2) \<and>
      install V_nat s \<lparr>item_key = p, item_flags = {item_remove_bit}, rdata = None,
                        wdata = Some (Packed_bool True)\<rparr> = Ok s3 \<and>
      store s3 p = Some (VValue l3) \<and> tid_unlock 10 \<le> tid_unlock (vv_version l3)"
proof -
  from put_RadixTree[of V_nat 5 7]
  obtain s p where r: "put V_nat RadixTree 5 7 = Ok s" "well_formed s" "quiescent s"
    "get_value s 5 = Ok (True, p)"
    "store s p = Some (VValue \<lparr>vv_version = 10, vv_value = 7\<rparr>)"
    by blast
  let ?l = "\<lparr>vv_version = 10 :: version_t, vv_value = 7 :: nat\<rparr>"
  let ?it = "\<lparr>item_key = p, item_flags = {item_remove_bit}, rdata = None,
              wdata = Some (Packed_bool True) :: nat packed option\<rparr>"
  have nw: "unat (vv_version ?l) + 8 < 2 ^ 64" by simp
  from put_ok[OF r(2,3), of V_nat 5 8] obtain s1 where s1: "put V_nat s 5 8 = Ok s1" by blast
  from remove_ok[OF r(2,3), of 5] obtain s2 where s2: "remove s 5 = Ok s2" by blast
  have "store s (item_key ?it) = Some (VValue ?l)" using r(5) by simp
  from install_remove_eq[OF this, of V_nat] obtain s3 where s3: "install V_nat s ?it = Ok s3"
    by simp
  from leaf_version_monotone[OF r(5) nw, where V = V_nat and key = 5 and val = 8 and it = ?it and s' = s1] r(2) s1
  obtain l1 where l1: "store s1 p = Some (VValue l1)" "tid_unlock 10 \<le> tid_unlock (vv_version l1)"
    by auto
  from leaf_version_monotone[OF r(5) nw, where V = V_nat and key = 5 and val = 8 and it = ?it and s' = s2] s2
  obtain l2 where l2: "store s2 p = Some (VValue l2)" "tid_unlock 10 \<le> tid_unlock (vv_version l2)"
    by auto
  from leaf_version_monotone[OF r(5) nw, where V = V_nat and key = 5 and val = 8 and it = ?it and s' = s3] s3
  obtain l3 where l3: "store s3 p = Some (VValue l3)" "tid_unlock 10 \<le> tid_unlock (vv_version l3)"
    by auto
  show ?thesis using r(1,5) s1 s2 s3 l1 l2 l3 by blast
qed

lemma wrap_example: "(0xFFFFFFFFFFFFFFFB :: version_t) + increment_value = 3"
  by (simp add: increment_value_def)

text \<open>
  Claim C8 as stated fails when the increment field is at its maximum: the 64-bit addition
  wraps around, and the version of the leaf falls from \<open>2 ^ 64 - 6\<close> to 2 (lock bit
  ignored).
\<close>

theorem leaf_version_wraps_counterexample:
  "install V_nat \<lparr>store = Map.empty(1 \<mapsto> VValue \<lparr>vv_version = 0xFFFFFFFFFFFFFFFB, vv_value = 0\<rparr>), next_addr = 2\<rparr>
      \<lparr>item_key = 1, item_flags = {item_put_bit}, rdata = None, wdata = Some (Packed_value 42)\<rparr>
   = Ok \<lparr>store = Map.empty(1 \<mapsto> VValue \<lparr>vv_version = 3, vv_value = 42\<rparr>), next_addr = 2\<rparr> \<and>
   tid_unlock 3 < tid_unlock 0xFFFFFFFFFFFFFFFB"
  by (simp add: install_def set_version_def write_value_def V_nat_def wrap_example valid_bit_def
      ver_insert_bit_def user_bit1_def tid_unlock_def lock_bit_def)

section \<open>Scenarios, evaluated\<close>

text \<open>
  Runs from the empty tree, computed by rewriting with the definitions. Keys of 16
  nibbles make 15 interior nodes below the root (addresses 1 to 15) and a leaf (address 16).
  First: \<open>put(k, 1); remove(k); get(k)\<close> returns false, then \<open>put(k, 2); get(k)\<close>
  returns 2, and the second \<open>put\<close> allocates nothing.
\<close>

lemma t_key_of_1: "t_key_of 1 = [0, 0, 0, 0, 0, 0, 0, 0, 0, 0, 0, 0, 0, 0, 0, 1]"
  by (simp add: t_key_of_def buf_size_def transform_eq nibble_def upt_rec drop_bit_eq_div)

lemmas eval_defs =
  insert_nodes_def get_value_def RadixTree_def root_addr_def insert_step_def child_of_def
  publish_def alloc_def new_tree_node_def fanout_def span_def tid_lock_eq is_locked_def lock_bit_def
  increment_value_def valid_bit_def set_version_def tid_unlock_def ver_insert_bit_def user_bit1_def
  put_def put_leaf_def remove_def remove_leaf_def get_def atomic_read_eq run_def V_nat_def Let_def

lemma scenario_remove_then_insert_again:
  "rbind (put V_nat RadixTree 1 1) (\<lambda>s1.
   rbind (remove s1 1) (\<lambda>s2.
   rbind (get s2 1 0) (\<lambda>g1.
   rbind (put V_nat s2 1 2) (\<lambda>s3.
   rbind (get s3 1 0) (\<lambda>g2.
   Ok (g1, g2, next_addr s1 = next_addr s3))))))
   = Ok ((False, 0), (True, 2), True)"
  by (simp add: t_key_of_1 eval_defs)

lemma t_key_of_AAAA: "t_key_of 0xAAAA = [0, 0, 0, 0, 0, 0, 0, 0, 0, 0, 0, 0, 10, 10, 10, 10]"
  by (simp add: t_key_of_def buf_size_def transform_eq nibble_def upt_rec drop_bit_eq_div)

lemma t_key_of_top: "t_key_of 0x1000000000000000 = [1, 0, 0, 0, 0, 0, 0, 0, 0, 0, 0, 0, 0, 0, 0, 0]"
  by (simp add: t_key_of_def buf_size_def transform_eq nibble_def upt_rec drop_bit_eq_div)

lemmas eval_trans_defs =
  trans_get_def trans_get_at_def trans_put_def trans_remove_def trans_remove_at_def read_absent_def
  Sto_item_def add_read_def
  add_write_def add_flags_def write_value_def commit_write_item_def lock_def check_def
  install_def unlock_def same_version_def

text \<open>
  Claim C4, at the item that \<open>trans_put(1, 42); trans_remove(1)\<close> in one transaction
  leaves on the leaf. The claim says of \<open>install\<close> on an item that carries
  \<^verbatim>\<open>item_remove_bit\<close> that the new version has the valid bit and the insert bit cleared.
  The item here carries \<^verbatim>\<open>item_remove_bit\<close> (and \<^verbatim>\<open>item_put_bit\<close>), and its write slot
  holds the \<^verbatim>\<open>bool\<close> staged by \<open>trans_remove\<close>. \<open>install\<close> takes the branch of
  \<^verbatim>\<open>item_put_bit\<close> and never tests \<^verbatim>\<open>item_remove_bit\<close>: from the locked version 5 it
  makes version 11, with the valid bit set, and writes that \<^verbatim>\<open>bool\<close> into the value cell
  as the payload 1. After the unlock \<open>get(1)\<close> returns true with the value 1: the key
  that the transaction removed last is present. The same two calls outside a transaction,
  \<open>put(1, 42); remove(1)\<close>, leave the key absent.
\<close>

theorem install_put_then_remove_keeps_valid:
  "rbind (trans_put V_nat RadixTree Map.empty 1 42) (\<lambda>(s1, txn1).
   rbind (trans_remove s1 txn1 1) (\<lambda>txn2.
   case txn2 16 of
     None \<Rightarrow> Fault
   | Some it \<Rightarrow>
       rbind (lock s1 it) (\<lambda>s2.
       rbind (install V_nat s2 it) (\<lambda>s3.
       rbind (unlock s3 it) (\<lambda>s4.
       rbind (get s4 1 0) (\<lambda>g.
       Ok (item_remove_bit \<in> item_flags it, item_put_bit \<in> item_flags it, wdata it,
           store s2 16, store s3 16, g)))))))
   = Ok (True, True, Some (Packed_bool True),
         Some (VValue \<lparr>vv_version = 5, vv_value = 0\<rparr>),
         Some (VValue \<lparr>vv_version = 11, vv_value = 1\<rparr>), (True, 1)) \<and>
   is_valid 11 \<and>
   rbind (put V_nat RadixTree 1 42) (\<lambda>s1. rbind (remove s1 1) (\<lambda>s2. get s2 1 0)) = Ok (False, 0)"
  by (simp add: t_key_of_1 eval_defs eval_trans_defs is_valid_def)

text \<open>
  The other order in one transaction, on a key that \<open>put(1, 5)\<close> has made present:
  \<open>trans_remove(1); trans_put(1, 9)\<close> also leaves one item with both flags, but with the
  payload of \<open>trans_put\<close> in the write slot. Installed as a put, it leaves the key present
  with the value 9, as the last operation of the transaction asks.
\<close>

lemma scenario_remove_then_put_in_one_transaction:
  "rbind (put V_nat RadixTree 1 5) (\<lambda>s.
   rbind (trans_remove s Map.empty 1) (\<lambda>txn1.
   rbind (trans_put V_nat s txn1 1 9) (\<lambda>(s1, txn2).
   case txn2 16 of
     None \<Rightarrow> Fault
   | Some it \<Rightarrow>
       rbind (commit_write_item V_nat s1 it) (\<lambda>s2.
       rbind (get s2 1 0) (\<lambda>g.
       Ok (item_remove_bit \<in> item_flags it, item_put_bit \<in> item_flags it, wdata it, g))))))
   = Ok (True, True, Some (Packed_value 9), (True, 9))"
  by (simp add: t_key_of_1 eval_defs eval_trans_defs)

text \<open>
  Claim C1, at an insert that falls between the two reads of an absent \<open>trans_get\<close>.
  The claim says that the check of the item flagged \<^verbatim>\<open>item_empty_bit\<close> returns false
  whenever a committed \<open>trans_put\<close> of the key comes before the commit of \<open>T\<close>. Here \<open>T\<close>
  calls \<open>trans_get(0xAAAA)\<close> on the empty tree: its descent finds the slot of the root
  empty. Before \<open>T\<close> reads \<^verbatim>\<open>node->version\<close>, transaction \<open>U\<close> runs
  \<open>trans_put(0xAAAA, 7)\<close>, which bumps the version of the root from 8 to 16, and commits.
  \<open>T\<close> then records the version 16 in its item, flagged \<^verbatim>\<open>item_empty_bit\<close>, and returns
  false. At the commit of \<open>T\<close> the check of that item returns true, while \<open>get(0xAAAA)\<close>
  returns true with the value 7.
\<close>

theorem absent_read_misses_insert:
  "rbind (trans_put V_nat RadixTree Map.empty 0xAAAA 7) (\<lambda>(s1, txnU).
   case txnU 16 of
     None \<Rightarrow> Fault
   | Some itU \<Rightarrow>
       rbind (commit_write_item V_nat s1 itU) (\<lambda>s2.
       rbind (trans_get_at V_nat RadixTree s2 s2 Map.empty 0xAAAA 0) (\<lambda>(txnT, found, x).
       case txnT 0 of
         None \<Rightarrow> Fault
       | Some itT \<Rightarrow>
           rbind (check s2 itT) (\<lambda>ok.
           rbind (get s2 0xAAAA 0) (\<lambda>g.
           Ok (found, item_empty_bit \<in> item_flags itT, rdata itT, ok, g))))))
   = Ok (False, True, Some 16, True, (True, 7))"
  by (simp add: t_key_of_AAAA eval_defs eval_trans_defs)

text \<open>
  With the absent read of \<open>T\<close> over before \<open>U\<close> begins, the check of the item fails after
  the commit of \<open>U\<close>, as lemma \<open>absent_read_before_insert_detected\<close> says of every tree.
\<close>

lemma scenario_phantom_detection:
  "rbind (trans_get V_nat RadixTree Map.empty 0xAAAA 0) (\<lambda>(txnA, found, x).
   rbind (trans_put V_nat RadixTree Map.empty 0xAAAA 7) (\<lambda>(s1, txnB).
   case (txnA 0, txnB 16) of
     (Some itA, Some itB) \<Rightarrow>
       rbind (check RadixTree itA) (\<lambda>before.
       rbind (commit_write_item V_nat s1 itB) (\<lambda>s2.
       rbind (check s2 itA) (\<lambda>after.
       rbind (get s2 0xAAAA 0) (\<lambda>g.
       Ok (found, before, after, g)))))
   | _ \<Rightarrow> Fault))
   = Ok (False, True, False, (True, 7))"
  by (simp add: t_key_of_AAAA eval_defs eval_trans_defs)

text \<open>
  A second absent read of \<open>T\<close> under the same node, after the commit of \<open>U\<close>, records the
  version of the node again in the same item: \<open>T\<close> reads \<open>0xAAAA\<close> (absent at the root,
  version 8), \<open>U\<close> inserts \<open>0xAAAA\<close> and commits, \<open>T\<close> reads \<open>0x1000000000000000\<close>
  (absent at the root, version 16). The absent branch does not test the read that the
  item already has, as the branch of a leaf does; the check of the item then returns true.
\<close>

lemma scenario_second_absent_read:
  "rbind (trans_get V_nat RadixTree Map.empty 0xAAAA 0) (\<lambda>(txnT1, found1, x1).
   rbind (trans_put V_nat RadixTree Map.empty 0xAAAA 7) (\<lambda>(s1, txnU).
   case txnU 16 of
     None \<Rightarrow> Fault
   | Some itU \<Rightarrow>
       rbind (commit_write_item V_nat s1 itU) (\<lambda>s2.
       rbind (trans_get V_nat s2 txnT1 0x1000000000000000 0) (\<lambda>(txnT2, found2, x2).
       case (txnT1 0, txnT2 0) of
         (Some it1, Some it2) \<Rightarrow>
           rbind (check s2 it1) (\<lambda>ok1.
           rbind (check s2 it2) (\<lambda>ok2.
           rbind (get s2 0xAAAA 0) (\<lambda>g.
           Ok (found1, rdata it1, ok1, found2, rdata it2, ok2, g))))
       | _ \<Rightarrow> Fault))))
   = Ok (False, Some 8, False, False, Some 16, True, (True, 7))"
  by (simp add: t_key_of_AAAA t_key_of_top eval_defs eval_trans_defs)


end
